theory Spec2Isabelle
  imports Complex_Main "HOL-Library.Multiset" "HOL-Library.AList"
begin

section \<open>Python strings\<close>

text \<open>
  A Python \<open>str\<close> is modelled as a \<^typ>\<open>string\<close>: a list of 8-bit characters, each read as
  the code point of the same number (U+0000 to U+00FF). Code points above U+00FF are outside
  the model.
\<close>

definition cp :: "char \<Rightarrow> int" where
  "cp c = of_char c"

text \<open>\<open>str.isspace\<close> on one code point, restricted to U+0000..U+00FF.\<close>

definition isspace :: "char \<Rightarrow> bool" where
  "isspace c = ((9 \<le> cp c \<and> cp c \<le> 13) \<or> (28 \<le> cp c \<and> cp c \<le> 32) \<or> cp c = 133 \<or> cp c = 160)"

text \<open>\<open>s.strip()\<close>: leading and trailing whitespace removed.\<close>

definition strip :: "string \<Rightarrow> string" where
  "strip s = rev (dropWhile isspace (rev (dropWhile isspace s)))"

text \<open>\<open>s.split(c)\<close> for a one-character separator; the result is never empty.\<close>

fun split_on :: "char \<Rightarrow> string \<Rightarrow> string list" where
  "split_on c [] = [[]]"
| "split_on c (x # xs) =
     (if x = c then [] # split_on c xs
      else (case split_on c xs of
              [] \<Rightarrow> [[x]]
            | w # ws \<Rightarrow> (x # w) # ws))"

text \<open>\<open>s.split(c, 1)\<close> on a string that contains \<open>c\<close>: the parts before and after the first \<open>c\<close>.\<close>

definition split_first :: "char \<Rightarrow> string \<Rightarrow> string \<times> string" where
  "split_first c s = (takeWhile (\<lambda>x. x \<noteq> c) s, drop 1 (dropWhile (\<lambda>x. x \<noteq> c) s))"

definition isdigit :: "char \<Rightarrow> bool" where
  "isdigit c = (48 \<le> cp c \<and> cp c \<le> 57)"

definition digit_val :: "char \<Rightarrow> int" where
  "digit_val c = cp c - 48"

text \<open>
  \<open>int(s)\<close> in base 10, as CPython parses a \<open>str\<close>: optional whitespace, an optional sign, decimal
  digits in which single underscores may separate digits, optional whitespace. The whitespace
  \<open>int\<close> accepts is the ASCII whitespace and the non-ASCII Unicode spaces; unlike \<open>strip\<close> it does
  not accept U+001C..U+001F. \<open>None\<close> stands for \<open>ValueError\<close>.
\<close>

definition int_space :: "char \<Rightarrow> bool" where
  "int_space c = ((9 \<le> cp c \<and> cp c \<le> 13) \<or> cp c = 32 \<or> cp c = 133 \<or> cp c = 160)"

fun digits_acc :: "int \<Rightarrow> string \<Rightarrow> int option" where
  "digits_acc acc [] = Some acc"
| "digits_acc acc (c # cs) =
     (if isdigit c then digits_acc (10 * acc + digit_val c) cs
      else if c = CHR ''_'' then
        (case cs of
           [] \<Rightarrow> None
         | d # ds \<Rightarrow> if isdigit d then digits_acc (10 * acc + digit_val d) ds else None)
      else None)"

definition digits :: "string \<Rightarrow> int option" where
  "digits s = (case s of
                 [] \<Rightarrow> None
               | c # cs \<Rightarrow> if isdigit c then digits_acc (digit_val c) cs else None)"

definition py_int :: "string \<Rightarrow> int option" where
  "py_int s =
     (let t = dropWhile int_space s;
          neg = (case t of [] \<Rightarrow> False | c # _ \<Rightarrow> c = CHR ''-'');
          u = (case t of [] \<Rightarrow> [] | c # r \<Rightarrow> if c = CHR ''-'' \<or> c = CHR ''+'' then r else t);
          v = rev (dropWhile int_space (rev u))
      in case digits v of
           None \<Rightarrow> None
         | Some n \<Rightarrow> Some (if neg then - n else n))"

section \<open>Exceptions\<close>

text \<open>
  The exception classes the program can meet. \<open>KeyboardInterrupt\<close> and \<open>CancelledError\<close> derive from
  \<open>BaseException\<close> only, so an \<open>except Exception\<close> clause does not catch them; all the others
  derive from \<open>Exception\<close>. \<open>ConnectionRefusedError\<close> and \<open>ConnectionResetError\<close> are subclasses of
  \<open>OSError\<close>.
\<close>

datatype exn =
    TimeoutError
  | ConnectionRefusedError
  | ConnectionResetError
  | OSError
  | AttributeError
  | ValueError
  | UnicodeError
  | OtherException
  | CancelledError
  | KeyboardInterrupt

fun is_Exception :: "exn \<Rightarrow> bool" where
  "is_Exception CancelledError = False"
| "is_Exception KeyboardInterrupt = False"
| "is_Exception _ = True"

fun is_OSError :: "exn \<Rightarrow> bool" where
  "is_OSError OSError = True"
| "is_OSError ConnectionRefusedError = True"
| "is_OSError ConnectionResetError = True"
| "is_OSError _ = False"

datatype 'a result = Returns 'a | Raises exn

section \<open>Port Spec Parser: \<open>parse_ports\<close>\<close>

text \<open>
  The body of the \<open>for part in ports_arg.split(',')\<close> loop, on the set \<open>ports\<close> built so far.
  A part that contains \<open>-\<close> is split at its first \<open>-\<close>; \<open>int\<close> raises \<open>ValueError\<close> on a
  malformed endpoint, which leaves the function.
\<close>

fun parse_loop :: "int set \<Rightarrow> string list \<Rightarrow> exn + int set" where
  "parse_loop ports [] = Inr ports"
| "parse_loop ports (part0 # parts) =
     (let part = strip part0 in
      if part = [] then parse_loop ports parts
      else if CHR ''-'' \<in> set part then
        (case py_int (fst (split_first CHR ''-'' part)) of
           None \<Rightarrow> Inl ValueError
         | Some a \<Rightarrow>
             (case py_int (snd (split_first CHR ''-'' part)) of
                None \<Rightarrow> Inl ValueError
              | Some b \<Rightarrow>
                  if a > b then parse_loop (ports \<union> set [b..a]) parts
                  else parse_loop (ports \<union> set [a..b]) parts))
      else
        (case py_int part of
           None \<Rightarrow> Inl ValueError
         | Some p \<Rightarrow> parse_loop (insert p ports) parts))"

definition parse_ports :: "string \<Rightarrow> exn + int list" where
  "parse_ports ports_arg =
     (case parse_loop {} (split_on CHR '','' ports_arg) of
        Inl e \<Rightarrow> Inl e
      | Inr ports \<Rightarrow> Inr (sorted_list_of_set {p \<in> ports. 1 \<le> p \<and> p \<le> 65535}))"

section \<open>Target Expander: \<open>expand_targets\<close>\<close>

subsection \<open>The \<open>ipaddress\<close> module\<close>

text \<open>
  The standard library module \<open>ipaddress\<close> is not part of the repository. Its IPv4 half is
  modelled here after the documentation and behaviour of current CPython (3.9.5 and later);
  its IPv6 parser and printer are taken as the parameter \<open>lib\<close>. An address is its integer
  value; a network is its network address and its prefix length.
\<close>

datatype ip_address = IPv4Address int | IPv6Address int

datatype ip_network = IPv4Network int nat | IPv6Network int nat

record ipv6_lib =
  ipv6_address :: "string \<Rightarrow> int option"
  ipv6_network :: "string \<Rightarrow> (int \<times> nat) option"
  ipv6_str :: "int \<Rightarrow> string"

text \<open>\<open>str(n)\<close> for a non-negative integer.\<close>

function str_nat :: "int \<Rightarrow> string" where
  "str_nat n =
     (if n < 10 then [char_of (48 + n)]
      else str_nat (n div 10) @ [char_of (48 + n mod 10)])"
  by pat_completeness auto
termination
  by (relation "measure nat") auto

text \<open>\<open>IPv4Address._parse_octet\<close>: one to three ASCII digits, no leading zero, at most 255.\<close>

definition parse_octet :: "string \<Rightarrow> int option" where
  "parse_octet s =
     (if s = [] then None
      else if \<not> list_all isdigit s then None
      else if length s > 3 then None
      else if s \<noteq> ''0'' \<and> hd s = CHR ''0'' then None
      else (case digits s of
              None \<Rightarrow> None
            | Some n \<Rightarrow> if n > 255 then None else Some n))"

text \<open>\<open>IPv4Address(s)\<close>: exactly four octets separated by dots.\<close>

definition ipv4_address :: "string \<Rightarrow> int option" where
  "ipv4_address s =
     (case map parse_octet (split_on CHR ''.'' s) of
        [Some a, Some b, Some c, Some d] \<Rightarrow> Some (((a * 256 + b) * 256 + c) * 256 + d)
      | _ \<Rightarrow> None)"

text \<open>
  \<open>_prefix_from_ip_int\<close>: the prefix length of a netmask given as an integer, which must be
  a run of ones followed by a run of zeroes.
\<close>

definition prefix_from_ip_int :: "int \<Rightarrow> nat option" where
  "prefix_from_ip_int m =
     (case filter (\<lambda>p. m = 2 ^ 32 - 2 ^ (32 - p)) [0..<33] of
        [] \<Rightarrow> None
      | p # _ \<Rightarrow> Some p)"

text \<open>
  \<open>IPv4Network._make_netmask\<close> on the text after the slash: a prefix length written with
  ASCII digits only, or else a netmask or a hostmask in dotted-quad form.
\<close>

definition ipv4_prefix :: "string \<Rightarrow> nat option" where
  "ipv4_prefix s =
     (case (if s \<noteq> [] \<and> list_all isdigit s then digits s else None) of
        Some p \<Rightarrow> if p \<le> 32 then Some (nat p) else None
      | None \<Rightarrow>
          (case ipv4_address s of
             None \<Rightarrow> None
           | Some m \<Rightarrow>
               (case prefix_from_ip_int m of
                  Some p \<Rightarrow> Some p
                | None \<Rightarrow> prefix_from_ip_int (2 ^ 32 - 1 - m))))"

text \<open>
  \<open>IPv4Network(s, strict=False)\<close>: at most one slash; the host bits of the address are
  cleared.
\<close>

definition ipv4_network :: "string \<Rightarrow> (int \<times> nat) option" where
  "ipv4_network s =
     (case split_on CHR ''/'' s of
        [a] \<Rightarrow> (case ipv4_address a of None \<Rightarrow> None | Some n \<Rightarrow> Some (n, 32))
      | [a, m] \<Rightarrow>
          (case ipv4_address a of
             None \<Rightarrow> None
           | Some n \<Rightarrow>
               (case ipv4_prefix m of
                  None \<Rightarrow> None
                | Some p \<Rightarrow> Some (n - n mod 2 ^ (32 - p), p)))
      | _ \<Rightarrow> None)"

text \<open>
  \<open>ipaddress.ip_network(s, strict=False)\<close> tries IPv4, then IPv6, and raises \<open>ValueError\<close>
  when neither accepts the text. A prefix length above 128 is not a result of the library.
\<close>

definition ip_network :: "ipv6_lib \<Rightarrow> string \<Rightarrow> exn + ip_network" where
  "ip_network lib s =
     (case ipv4_network s of
        Some (n, p) \<Rightarrow> Inr (IPv4Network n p)
      | None \<Rightarrow>
          (case ipv6_network lib s of
             Some (n, p) \<Rightarrow> if p \<le> 128 then Inr (IPv6Network n p) else Inl ValueError
           | None \<Rightarrow> Inl ValueError))"

definition ip_address :: "ipv6_lib \<Rightarrow> string \<Rightarrow> exn + ip_address" where
  "ip_address lib s =
     (case ipv4_address s of
        Some n \<Rightarrow> Inr (IPv4Address n)
      | None \<Rightarrow>
          (case ipv6_address lib s of
             Some n \<Rightarrow> Inr (IPv6Address n)
           | None \<Rightarrow> Inl ValueError))"

text \<open>
  \<open>net.hosts()\<close>. For IPv4 the network and the broadcast address are left out, except that
  a /31 yields both of its addresses and a /32 its single address. For IPv6 only the
  network address is left out, with the same exceptions for /127 and /128.
\<close>

fun hosts :: "ip_network \<Rightarrow> ip_address list" where
  "hosts (IPv4Network n p) =
     (if p = 31 then map IPv4Address [n .. n + 1]
      else if p = 32 then [IPv4Address n]
      else map IPv4Address [n + 1 .. n + 2 ^ (32 - p) - 2])"
| "hosts (IPv6Network n p) =
     (if p = 127 then map IPv6Address [n .. n + 1]
      else if p = 128 then [IPv6Address n]
      else map IPv6Address [n + 1 .. n + 2 ^ (128 - p) - 1])"

text \<open>\<open>str(ip)\<close>: dotted quad for IPv4.\<close>

fun str_ip :: "ipv6_lib \<Rightarrow> ip_address \<Rightarrow> string" where
  "str_ip lib (IPv4Address n) =
     str_nat (n div 16777216 mod 256) @ ''.'' @ str_nat (n div 65536 mod 256) @ ''.'' @
     str_nat (n div 256 mod 256) @ ''.'' @ str_nat (n mod 256)"
| "str_ip lib (IPv6Address n) = ipv6_str lib n"

subsection \<open>\<open>expand_targets\<close>\<close>

text \<open>
  Both lookups sit in one \<open>try\<close> whose only handler is \<open>except ValueError\<close>: any other
  exception would leave the function.
\<close>

definition expand_targets :: "ipv6_lib \<Rightarrow> string \<Rightarrow> string list result" where
  "expand_targets lib target_arg0 =
     (let target_arg = strip target_arg0 in
      if CHR ''/'' \<in> set target_arg then
        (case ip_network lib target_arg of
           Inr net \<Rightarrow> Returns (map (str_ip lib) (hosts net))
         | Inl e \<Rightarrow> if e = ValueError then Returns [target_arg] else Raises e)
      else
        (case ip_address lib target_arg of
           Inr _ \<Rightarrow> Returns [target_arg]
         | Inl e \<Rightarrow> if e = ValueError then Returns [target_arg] else Raises e))"

section \<open>Port Prober: \<open>banner_grab\<close> and \<open>scan_port\<close>\<close>

subsection \<open>The network and the event loop\<close>

text \<open>
  What an awaited operation does: it completes with a value after some seconds, it raises
  after some seconds, or it never completes. \<open>asyncio.wait_for(aw, timeout)\<close> gives the
  operation's own result when that comes strictly before the timeout expires, and raises
  \<open>TimeoutError\<close> otherwise. Seconds are real numbers; the floating-point values \<open>nan\<close> and
  \<open>inf\<close> are outside the model.
\<close>

datatype 'a awaited = Completes real 'a | Fails real exn | Pending

definition wait_for :: "'a awaited \<Rightarrow> real \<Rightarrow> 'a result" where
  "wait_for aw timeout =
     (case aw of
        Completes d v \<Rightarrow> if d < timeout then Returns v else Raises TimeoutError
      | Fails d e \<Rightarrow> if d < timeout then Raises e else Raises TimeoutError
      | Pending \<Rightarrow> Raises TimeoutError)"

type_synonym bytes = "int list"

text \<open>
  An open connection, as far as the prober uses it: \<open>reader\<close> is what the peer sends first and
  when; \<open>close_exn\<close> and \<open>wait_closed_exn\<close> are the exceptions raised by \<open>writer.close()\<close> and
  by \<open>await writer.wait_closed()\<close>, if any. On a plain TCP transport with nothing written
  \<open>wait_closed\<close> completes at once, so it either returns or raises.
\<close>

record connection =
  reader :: "bytes awaited"
  close_exn :: "exn option"
  wait_closed_exn :: "exn option"

text \<open>\<open>reader.read(n)\<close>: at most \<open>n\<close> of the bytes that have arrived.\<close>

definition stream_read :: "bytes awaited \<Rightarrow> nat \<Rightarrow> bytes awaited" where
  "stream_read rd n =
     (case rd of
        Completes d data \<Rightarrow> Completes d (take n data)
      | Fails d e \<Rightarrow> Fails d e
      | Pending \<Rightarrow> Pending)"

text \<open>
  Everything outside the repository that a session depends on: the IPv6 half of \<open>ipaddress\<close>,
  the codec behind \<open>bytes.decode(errors='replace')\<close> (which never raises), what
  \<open>asyncio.open_connection(host, port)\<close> does for each host and port, and the order in
  which the event loop resumes the probe tasks of each host.
\<close>

record world =
  ipv6 :: ipv6_lib
  decode_replace :: "bytes \<Rightarrow> string"
  open_connection :: "string \<Rightarrow> int \<Rightarrow> connection awaited"
  loop_order :: "string \<Rightarrow> nat list"

definition BANNER_READ_BYTES :: nat where
  "BANNER_READ_BYTES = 1024"

subsection \<open>\<open>banner_grab\<close>\<close>

definition banner_grab :: "world \<Rightarrow> bytes awaited \<Rightarrow> real \<Rightarrow> string result" where
  "banner_grab w rd timeout =
     (case wait_for (stream_read rd BANNER_READ_BYTES) timeout of
        Returns data \<Rightarrow> Returns (strip (decode_replace w data))
      | Raises e \<Rightarrow> if is_Exception e then Returns [] else Raises e)"

subsection \<open>\<open>scan_port\<close>\<close>

text \<open>The result triple \<open>(port, is_open, banner)\<close>.\<close>

type_synonym outcome = "int \<times> bool \<times> string"

text \<open>
  What a probe task does, in order. \<open>SemAcquire\<close> and \<open>SemRelease\<close> are the entry and the exit
  of \<open>async with sem\<close>; \<open>Connect t\<close> is the connection attempt under timeout \<open>t\<close>;
  \<open>BannerRead n t\<close> is the read of at most \<open>n\<close> bytes under timeout \<open>t\<close>.
\<close>

datatype action =
    SemAcquire
  | Connect real
  | BannerRead nat real
  | Close
  | WaitClosed
  | SemRelease

text \<open>
  The two outer handlers of \<open>scan_port\<close>: the first names \<open>asyncio.TimeoutError\<close>,
  \<open>ConnectionRefusedError\<close> and \<open>OSError\<close>, the second is \<open>except Exception\<close>. What neither
  catches leaves the function.
\<close>

definition probe_handlers :: "int \<Rightarrow> exn \<Rightarrow> outcome result" where
  "probe_handlers port e =
     (if e = TimeoutError \<or> e = ConnectionRefusedError \<or> is_OSError e then Returns (port, False, [])
      else if is_Exception e then Returns (port, False, [])
      else Raises e)"

text \<open>
  \<open>scan_port\<close> gives the actions the task performs and what it returns or raises. The
  \<open>async with\<close> block releases the semaphore on every exit. The inner handler around
  \<open>wait_closed\<close> catches \<open>AttributeError\<close> only.
\<close>

definition scan_port :: "world \<Rightarrow> string \<Rightarrow> int \<Rightarrow> real \<Rightarrow> bool \<Rightarrow> action list \<times> outcome result" where
  "scan_port w host port timeout do_banner =
     (case wait_for (open_connection w host port) timeout of
        Raises e \<Rightarrow> ([SemAcquire, Connect timeout, SemRelease], probe_handlers port e)
      | Returns conn \<Rightarrow>
          (let reads = (if do_banner then [BannerRead BANNER_READ_BYTES (min (1 / 2) timeout)] else []) in
           case (if do_banner then banner_grab w (reader conn) (min (1 / 2) timeout) else Returns []) of
             Raises e \<Rightarrow> ([SemAcquire, Connect timeout] @ reads @ [SemRelease], probe_handlers port e)
           | Returns banner \<Rightarrow>
               (case close_exn conn of
                  Some e \<Rightarrow>
                    ([SemAcquire, Connect timeout] @ reads @ [Close, SemRelease], probe_handlers port e)
                | None \<Rightarrow>
                    (case wait_closed_exn conn of
                       None \<Rightarrow>
                         ([SemAcquire, Connect timeout] @ reads @ [Close, WaitClosed, SemRelease],
                          Returns (port, True, banner))
                     | Some e \<Rightarrow>
                         ([SemAcquire, Connect timeout] @ reads @ [Close, WaitClosed, SemRelease],
                          if e = AttributeError then Returns (port, True, banner)
                          else probe_handlers port e)))))"

section \<open>Host Scan Scheduler: \<open>scan_host\<close>\<close>

text \<open>
  A probe task in the event loop: its port, the actions it has performed, the actions it has
  still to perform, and what it returns or raises when they are done.
\<close>

record task =
  task_port :: int
  past :: "action list"
  todo :: "action list"
  answer :: "outcome result"

text \<open>What the session prints.\<close>

datatype line =
    Scanning string nat
  | OpenPort string int string
  | Finished string nat nat
  | ErrorScanning string exn

text \<open>What a session does: it prints a line, or a probe of a host and port performs an action.\<close>

datatype event = Print line | Probe string int action

text \<open>
  The state of one host scan: the value of the semaphore, the probe tasks, the \<open>results\<close> list of
  the collecting loop, the exception that left the collecting loop if one did, and the events
  so far.
\<close>

record loop_state =
  sem_value :: nat
  tasks :: "task list"
  results :: "outcome list"
  raised :: "exn option"
  events :: "event list"

text \<open>
  The collecting loop \<open>for coro in asyncio.as_completed(tasks)\<close> receives a task when it
  completes: a returned triple is appended to \<open>results\<close> and printed if the port is open; an
  exception leaves \<open>scan_host\<close>, after which nothing is collected.
\<close>

definition collect :: "string \<Rightarrow> outcome result \<Rightarrow> loop_state \<Rightarrow> loop_state" where
  "collect host r s =
     (if raised s \<noteq> None then s
      else case r of
             Raises e \<Rightarrow> s\<lparr>raised := Some e\<rparr>
           | Returns (port, is_open, banner) \<Rightarrow>
               s\<lparr>results := results s @ [(port, is_open, banner)],
                 events := events s @ (if is_open then [Print (OpenPort host port banner)] else [])\<rparr>)"

text \<open>
  The event loop resumes task \<open>i\<close> for its next action. A task whose next action is
  \<open>SemAcquire\<close> cannot move while the semaphore is at zero; acquiring takes one from the
  semaphore and releasing gives one back. A task with nothing left to do cannot move: \<open>None\<close>.
\<close>

definition run_task :: "string \<Rightarrow> nat \<Rightarrow> loop_state \<Rightarrow> loop_state option" where
  "run_task host i s =
     (if i \<ge> length (tasks s) then None
      else case todo (tasks s ! i) of
             [] \<Rightarrow> None
           | a # rest \<Rightarrow>
               if a = SemAcquire \<and> sem_value s = 0 then None
               else
                 (let t = tasks s ! i;
                      s1 = s\<lparr>sem_value :=
                               (if a = SemAcquire then sem_value s - 1
                                else if a = SemRelease then sem_value s + 1
                                else sem_value s),
                             tasks := (tasks s)[i := t\<lparr>past := past t @ [a], todo := rest\<rparr>],
                             events := events s @ [Probe host (task_port t) a]\<rparr>
                  in Some (if rest = [] then collect host (answer t) s1 else s1)))"

fun run :: "string \<Rightarrow> nat list \<Rightarrow> loop_state \<Rightarrow> loop_state option" where
  "run host [] s = Some s"
| "run host (i # order) s =
     (case run_task host i s of
        None \<Rightarrow> None
      | Some s1 \<Rightarrow> run host order s1)"

text \<open>The coroutine \<open>scan_port(host, p, timeout, do_banner, sem)\<close> before it has started.\<close>

definition new_task :: "int \<Rightarrow> action list \<times> outcome result \<Rightarrow> task" where
  "new_task p c = \<lparr>task_port = p, past = [], todo = fst c, answer = snd c\<rparr>"

definition all_done :: "loop_state \<Rightarrow> bool" where
  "all_done s = list_all (\<lambda>t. todo t = []) (tasks s)"

text \<open>
  The first three statements of \<open>scan_host\<close>: a semaphore of value \<open>concurrency\<close>, one task per
  port, and the empty \<open>results\<close> list.
\<close>

definition scan_host_start :: "world \<Rightarrow> string \<Rightarrow> int list \<Rightarrow> real \<Rightarrow> int \<Rightarrow> bool \<Rightarrow> loop_state" where
  "scan_host_start w host ports timeout concurrency do_banner =
     \<lparr>sem_value = nat concurrency,
      tasks = map (\<lambda>p. new_task p (scan_port w host p timeout do_banner)) ports,
      results = [], raised = None, events = []\<rparr>"

text \<open>
  \<open>scan_host\<close> under the resumption order \<open>order\<close>. \<open>asyncio.Semaphore\<close> raises \<open>ValueError\<close> for a
  negative value. The scan ends when an exception has left the collecting loop or when every
  task is done; then the results are sorted by port (\<open>sorted\<close> is stable). \<open>None\<close>: the order
  is not one the loop can follow, or the scan has not ended after it.
\<close>

definition scan_host ::
  "world \<Rightarrow> string \<Rightarrow> int list \<Rightarrow> real \<Rightarrow> int \<Rightarrow> bool \<Rightarrow> nat list \<Rightarrow> (event list \<times> outcome list result) option" where
  "scan_host w host ports timeout concurrency do_banner order =
     (if concurrency < 0 then Some ([], Raises ValueError)
      else
        case run host order (scan_host_start w host ports timeout concurrency do_banner) of
          None \<Rightarrow> None
        | Some s \<Rightarrow>
            (case raised s of
               Some e \<Rightarrow> Some (events s, Raises e)
             | None \<Rightarrow>
                 if all_done s then Some (events s, Returns (sort_key fst (results s)))
                 else None))"

section \<open>Scan Session Driver: \<open>main_async\<close>\<close>

text \<open>The command-line arguments the driver reads.\<close>

record args =
  arg_target :: string
  arg_ports :: string
  arg_concurrency :: int
  arg_timeout :: real
  arg_banner :: bool

text \<open>
  The loop \<open>for host in targets\<close>, on the dictionary \<open>all_results\<close> and the events so far. The
  loop is written over \<open>scan\<close>, what the awaited call of \<open>scan_host\<close> does for a host: its events
  and what it returns or raises; \<open>main_async\<close> below passes the call it makes.
  \<open>except Exception\<close> around one host's scan prints the error and goes on to the next host;
  what it does not catch leaves the driver. A dictionary keeps insertion order, and
  assigning to a key that is present keeps the key's place.
\<close>

fun scan_targets ::
  "(string \<Rightarrow> (event list \<times> outcome list result) option) \<Rightarrow> int list \<Rightarrow> string list \<Rightarrow>
   (string \<times> outcome list) list \<Rightarrow> event list \<Rightarrow>
   (event list \<times> (string \<times> outcome list) list result) option" where
  "scan_targets scan ports [] all_results out = Some (out, Returns all_results)"
| "scan_targets scan ports (host # targets) all_results out =
     (case scan host of
        None \<Rightarrow> None
      | Some (evs, Returns host_results) \<Rightarrow>
          scan_targets scan ports targets
            (AList.update host host_results all_results)
            (out @ [Print (Scanning host (length ports))] @ evs @
             [Print (Finished host (length (filter (\<lambda>(_, open, _). open) host_results)) (length ports))])
      | Some (evs, Raises e) \<Rightarrow>
          if is_Exception e then
            scan_targets scan ports targets all_results
              (out @ [Print (Scanning host (length ports))] @ evs @ [Print (ErrorScanning host e)])
          else Some (out @ [Print (Scanning host (length ports))] @ evs, Raises e))"

text \<open>
  \<open>main_async\<close> up to the end of the loop over the targets; writing the results to a file is
  not modelled. The port expression is parsed first, and its \<open>ValueError\<close> leaves the driver.
  The call awaited for a host is
  \<open>scan_host(host, ports, args.timeout, args.concurrency, args.banner)\<close>, run under the order in
  which the event loop resumes the probes of that host.
\<close>

definition main_async ::
  "world \<Rightarrow> args \<Rightarrow> (event list \<times> (string \<times> outcome list) list result) option" where
  "main_async w a =
     (case parse_ports (arg_ports a) of
        Inl e \<Rightarrow> Some ([], Raises e)
      | Inr ports \<Rightarrow>
          (case expand_targets (ipv6 w) (arg_target a) of
             Raises e \<Rightarrow> Some ([], Raises e)
           | Returns targets \<Rightarrow>
               scan_targets
                 (\<lambda>host. scan_host w host ports (arg_timeout a) (arg_concurrency a) (arg_banner a)
                            (loop_order w host))
                 ports targets [] []))"

section \<open>Notions used in the statements\<close>

subsection \<open>Port expressions\<close>

text \<open>The non-empty tokens of a port expression, with surrounding whitespace removed.\<close>

definition tokens :: "string \<Rightarrow> string list" where
  "tokens s = filter (\<lambda>t. t \<noteq> []) (map strip (split_on CHR '','' s))"

text \<open>
  The specification's notion of a parseable token: it is parseable as an integer, or some
  \<open>-\<close> in it separates two parts that are both parseable as integers.
\<close>

definition parseable :: "string \<Rightarrow> bool" where
  "parseable tok =
     (py_int tok \<noteq> None \<or>
      list_ex (\<lambda>i. tok ! i = CHR ''-'' \<and> py_int (take i tok) \<noteq> None \<and> py_int (drop (Suc i) tok) \<noteq> None)
        [0..<length tok])"

text \<open>
  What the loop body of \<open>parse_ports\<close> accepts: a token without \<open>-\<close> that \<open>int\<close> parses, or a
  token whose parts before and after its first \<open>-\<close> both parse.
\<close>

definition accepted :: "string \<Rightarrow> bool" where
  "accepted tok =
     (if CHR ''-'' \<in> set tok
      then py_int (fst (split_first CHR ''-'' tok)) \<noteq> None \<and> py_int (snd (split_first CHR ''-'' tok)) \<noteq> None
      else py_int tok \<noteq> None)"

text \<open>The values a token stands for: one integer, or every integer between the two endpoints.\<close>

definition token_values :: "string \<Rightarrow> int set" where
  "token_values tok =
     (if CHR ''-'' \<in> set tok
      then (case (py_int (fst (split_first CHR ''-'' tok)), py_int (snd (split_first CHR ''-'' tok))) of
              (Some a, Some b) \<Rightarrow> {min a b .. max a b}
            | _ \<Rightarrow> {})
      else (case py_int tok of Some p \<Rightarrow> {p} | None \<Rightarrow> {}))"

subsection \<open>Address blocks\<close>

text \<open>The integer value of an address.\<close>

fun addr_int :: "ip_address \<Rightarrow> int" where
  "addr_int (IPv4Address n) = n"
| "addr_int (IPv6Address n) = n"

text \<open>All addresses of a block, from the network address upwards.\<close>

fun block :: "ip_network \<Rightarrow> int set" where
  "block (IPv4Network n p) = {n ..< n + 2 ^ (32 - p)}"
| "block (IPv6Network n p) = {n ..< n + 2 ^ (128 - p)}"

text \<open>
  The usable host addresses of a block: for IPv4 every address but the network and the
  broadcast address, for IPv6 every address but the network address; the two narrowest
  blocks of each family keep all their addresses.
\<close>

fun usable :: "ip_network \<Rightarrow> int set" where
  "usable (IPv4Network n p) =
     (if p \<ge> 31 then block (IPv4Network n p)
      else block (IPv4Network n p) - {n, n + 2 ^ (32 - p) - 1})"
| "usable (IPv6Network n p) =
     (if p \<ge> 127 then block (IPv6Network n p)
      else block (IPv6Network n p) - {n})"

text \<open>An IPv6 half that accepts nothing, for the examples.\<close>

definition no_ipv6 :: ipv6_lib where
  "no_ipv6 = \<lparr>ipv6_address = (\<lambda>s. None), ipv6_network = (\<lambda>s. None), ipv6_str = (\<lambda>n. [])\<rparr>"

text \<open>An address is of the family of a network.\<close>

fun same_family :: "ip_network \<Rightarrow> ip_address \<Rightarrow> bool" where
  "same_family (IPv4Network _ _) (IPv4Address _) = True"
| "same_family (IPv6Network _ _) (IPv6Address _) = True"
| "same_family _ _ = False"

subsection \<open>Probes\<close>

text \<open>
  Whatever the connection attempt, the banner read and the close raise is an instance of
  \<open>Exception\<close>: no \<open>KeyboardInterrupt\<close> or cancellation arrives during the probe.
\<close>

definition raises_only_Exceptions :: "connection awaited \<Rightarrow> bool" where
  "raises_only_Exceptions aw =
     (case aw of
        Pending \<Rightarrow> True
      | Fails d e \<Rightarrow> is_Exception e
      | Completes d conn \<Rightarrow>
          (case reader conn of Fails d1 e \<Rightarrow> is_Exception e | _ \<Rightarrow> True) \<and>
          (case close_exn conn of Some e \<Rightarrow> is_Exception e | None \<Rightarrow> True) \<and>
          (case wait_closed_exn conn of Some e \<Rightarrow> is_Exception e | None \<Rightarrow> True))"

text \<open>
  A world for the examples. Port 22 accepts after 10 ms and sends \<open>SSH\<close> and a line end after
  100 ms; port 80 accepts and stays silent; port 443 accepts and then resets the connection;
  port 8080 never answers; port 9 is interrupted from the keyboard; every other port
  refuses. The codec decodes the one banner of the example. The loop order fits three probes
  with banner reads under a cap of two.
\<close>

definition demo_world :: world where
  "demo_world =
     \<lparr>ipv6 = no_ipv6,
      decode_replace = (\<lambda>data. if data = [83, 83, 72, 13, 10] then [CHR ''S'', CHR ''S'', CHR ''H'', CHR 0x0D, CHR 0x0A] else []),
      open_connection = (\<lambda>host port.
        if port = 22 then
          Completes (1 / 100) \<lparr>reader = Completes (1 / 10) [83, 83, 72, 13, 10],
                                close_exn = None, wait_closed_exn = None\<rparr>
        else if port = 80 then
          Completes (1 / 50) \<lparr>reader = Pending, close_exn = None, wait_closed_exn = None\<rparr>
        else if port = 443 then
          Completes (1 / 50) \<lparr>reader = Fails (1 / 5) ConnectionResetError,
                               close_exn = None, wait_closed_exn = Some ConnectionResetError\<rparr>
        else if port = 8080 then Pending
        else if port = 9 then Fails (1 / 1000) KeyboardInterrupt
        else Fails (1 / 1000) ConnectionRefusedError),
      loop_order = (\<lambda>host. [0, 1, 0, 1, 1, 1, 1, 1, 2, 2, 0, 0, 0, 0, 2, 2, 2, 2])\<rparr>"

subsection \<open>The semaphore\<close>

text \<open>A task is past its acquire point and before its release point.\<close>

definition holding :: "task \<Rightarrow> bool" where
  "holding t = (SemAcquire \<in> set (past t) \<and> SemRelease \<notin> set (past t))"

text \<open>The number of tasks between acquire and release.\<close>

definition in_flight :: "loop_state \<Rightarrow> nat" where
  "in_flight s = length (filter holding (tasks s))"

text \<open>The actions on the connection: everything but the two semaphore actions.\<close>

fun is_net :: "action \<Rightarrow> bool" where
  "is_net SemAcquire = False"
| "is_net SemRelease = False"
| "is_net _ = True"

text \<open>A list of actions that acquires first, releases last and does neither in between.\<close>

definition bracketed :: "action list \<Rightarrow> bool" where
  "bracketed tr = (\<exists>body. tr = SemAcquire # body @ [SemRelease] \<and> list_all is_net body)"

text \<open>
  The invariant of the scheduler under cap \<open>C\<close>: every task follows a bracketed list of
  actions, and the free slots and the held slots add up to \<open>C\<close>.
\<close>

definition sched_inv :: "nat \<Rightarrow> loop_state \<Rightarrow> bool" where
  "sched_inv C s =
     ((\<forall>t\<in>set (tasks s). bracketed (past t @ todo t)) \<and> sem_value s + in_flight s = C)"

text \<open>What a task is given at its creation and never changes.\<close>

definition script :: "task \<Rightarrow> int \<times> action list \<times> outcome result" where
  "script t = (task_port t, past t @ todo t, answer t)"

text \<open>The number of actions still to perform.\<close>

definition remaining :: "loop_state \<Rightarrow> nat" where
  "remaining s = sum_list (map (\<lambda>t. length (todo t)) (tasks s))"

text \<open>
  The invariant of the collecting loop: while no exception has left it, \<open>results\<close> holds
  exactly the answers of the finished tasks; an exception that left it was raised by a task.
\<close>

definition collected :: "loop_state \<Rightarrow> bool" where
  "collected s =
     ((raised s = None \<longrightarrow>
         mset (map Returns (results s)) = mset (map answer (filter (\<lambda>t. todo t = []) (tasks s)))) \<and>
      (\<forall>e. raised s = Some e \<longrightarrow> (\<exists>t\<in>set (tasks s). answer t = Raises e)))"

subsection \<open>Sessions\<close>

text \<open>The host an event is about.\<close>

fun event_host :: "event \<Rightarrow> string" where
  "event_host (Print (Scanning h n)) = h"
| "event_host (Print (OpenPort h p b)) = h"
| "event_host (Print (Finished h k n)) = h"
| "event_host (Print (ErrorScanning h e)) = h"
| "event_host (Probe h p a) = h"

text \<open>The hosts whose scan was announced, in the order of the announcements.\<close>

fun started :: "event list \<Rightarrow> string list" where
  "started [] = []"
| "started (Print (Scanning h n) # evs) = h # started evs"
| "started (ev # evs) = started evs"

text \<open>The diagnostics printed for failed hosts.\<close>

fun error_lines :: "event list \<Rightarrow> (string \<times> exn) list" where
  "error_lines [] = []"
| "error_lines (Print (ErrorScanning h e) # evs) = (h, e) # error_lines evs"
| "error_lines (ev # evs) = error_lines evs"

text \<open>The call of \<open>scan_host\<close> the driver makes for one host.\<close>

definition host_scan :: "world \<Rightarrow> args \<Rightarrow> int list \<Rightarrow> string \<Rightarrow> (event list \<times> outcome list result) option" where
  "host_scan w a ports host =
     scan_host w host ports (arg_timeout a) (arg_concurrency a) (arg_banner a) (loop_order w host)"

text \<open>The result a finished host scan returned, and the exception it raised.\<close>

definition returned_by :: "(event list \<times> outcome list result) option \<Rightarrow> outcome list option" where
  "returned_by x = (case x of Some (evs, Returns r) \<Rightarrow> Some r | _ \<Rightarrow> None)"

definition raised_by :: "(event list \<times> outcome list result) option \<Rightarrow> exn list" where
  "raised_by x = (case x of Some (evs, Raises e) \<Rightarrow> [e] | _ \<Rightarrow> [])"

text \<open>
  Everything the session does for one host, from the announcement to the summary or the
  diagnostic, when the scan of a host does what \<open>scan\<close> says.
\<close>

definition host_block ::
  "(string \<Rightarrow> (event list \<times> outcome list result) option) \<Rightarrow> int list \<Rightarrow> string \<Rightarrow> event list" where
  "host_block scan ports host =
     (case scan host of
        None \<Rightarrow> []
      | Some (evs, Returns host_results) \<Rightarrow>
          [Print (Scanning host (length ports))] @ evs @
          [Print (Finished host (length (filter (\<lambda>(_, open, _). open) host_results)) (length ports))]
      | Some (evs, Raises e) \<Rightarrow>
          [Print (Scanning host (length ports))] @ evs @ [Print (ErrorScanning host e)])"

text \<open>The scan of a host ends: it returns, or it raises an instance of \<open>Exception\<close>.\<close>

definition scan_ends :: "(event list \<times> outcome list result) option \<Rightarrow> bool" where
  "scan_ends x =
     (case x of
        None \<Rightarrow> False
      | Some (evs, Returns r) \<Rightarrow> True
      | Some (evs, Raises e) \<Rightarrow> is_Exception e)"

text \<open>
  What happens inside the scan of a host: the actions of the probes of that host, and the
  lines for its open ports.
\<close>

fun scan_event :: "string \<Rightarrow> event \<Rightarrow> bool" where
  "scan_event host (Probe h p a) = (h = host)"
| "scan_event host (Print (OpenPort h p b)) = (h = host)"
| "scan_event host (Print (Scanning h n)) = False"
| "scan_event host (Print (Finished h k n)) = False"
| "scan_event host (Print (ErrorScanning h e)) = False"

definition scan_events :: "string \<Rightarrow> (event list \<times> outcome list result) option \<Rightarrow> bool" where
  "scan_events host x = (case x of None \<Rightarrow> True | Some (evs, r) \<Rightarrow> list_all (scan_event host) evs)"

text \<open>Arguments for the examples.\<close>

definition demo_args :: args where
  "demo_args = \<lparr>arg_target = ''10.0.0.4/31'', arg_ports = ''443,22,80'', arg_concurrency = 2,
                 arg_timeout = 1, arg_banner = True\<rparr>"

text \<open>
  Host scans for the examples: the scan of \<open>10.0.0.5\<close> raises \<open>OSError\<close> after its first probe
  has acquired the semaphore, and every other host is scanned as in the example network.
\<close>

definition demo_scan :: "string \<Rightarrow> (event list \<times> outcome list result) option" where
  "demo_scan host =
     (if host = ''10.0.0.5'' then Some ([Probe host 443 SemAcquire], Raises OSError)
      else host_scan demo_world demo_args [22, 80, 443] host)"

section \<open>The port parser\<close>

lemma parse_loop_accepted:
  "list_all accepted (filter (\<lambda>t. t \<noteq> []) (map strip parts)) \<Longrightarrow>
   parse_loop acc parts = Inr (acc \<union> \<Union> (token_values ` set (filter (\<lambda>t. t \<noteq> []) (map strip parts))))"
proof (induction parts arbitrary: acc)
  case Nil
  then show ?case by simp
next
  case (Cons part parts)
  show ?case
  proof (cases "strip part = []")
    case True
    with Cons show ?thesis by simp
  next
    case False
    with Cons.prems have acc: "accepted (strip part)"
      and rest: "list_all accepted (filter (\<lambda>t. t \<noteq> []) (map strip parts))"
      by simp_all
    show ?thesis
    proof (cases "CHR ''-'' \<in> set (strip part)")
      case True
      with acc obtain a b where a: "py_int (fst (split_first CHR ''-'' (strip part))) = Some a"
        and b: "py_int (snd (split_first CHR ''-'' (strip part))) = Some b"
        by (auto simp: accepted_def)
      have tv: "token_values (strip part) = {min a b .. max a b}"
        using True a b by (simp add: token_values_def)
      show ?thesis
      proof (cases "a > b")
        case gt: True
        then have "{min a b .. max a b} = set [b..a]" by (simp add: min_def max_def)
        with gt False True a b tv Cons.IH[OF rest] show ?thesis
          by (simp add: Let_def Un_assoc)
      next
        case le: False
        then have "{min a b .. max a b} = set [a..b]" by (simp add: min_def max_def)
        with le False True a b tv Cons.IH[OF rest] show ?thesis
          by (simp add: Let_def Un_assoc)
      qed
    next
      case nodash: False
      with acc obtain p where p: "py_int (strip part) = Some p"
        by (auto simp: accepted_def)
      have tv: "token_values (strip part) = {p}"
        using nodash p by (simp add: token_values_def)
      from False nodash p tv Cons.IH[OF rest] show ?thesis
        by (simp add: Let_def)
    qed
  qed
qed

lemma parse_loop_error: "parse_loop acc parts = Inl e \<Longrightarrow> e = ValueError"
  by (induction acc parts rule: parse_loop.induct)
     (auto simp: Let_def split: if_splits option.splits)

lemma parse_loop_Inr_accepted:
  "parse_loop acc parts = Inr ports \<Longrightarrow> list_all accepted (filter (\<lambda>t. t \<noteq> []) (map strip parts))"
  by (induction acc parts rule: parse_loop.induct)
     (auto simp: Let_def accepted_def split: if_splits option.splits)

lemma finite_token_values: "finite (token_values tok)"
  by (auto simp: token_values_def split: option.splits)

lemma split_first_take:
  assumes "c \<in> set s"
  shows "\<exists>i < length s. s ! i = c \<and> fst (split_first c s) = take i s \<and> snd (split_first c s) = drop (Suc i) s"
proof -
  let ?i = "length (takeWhile (\<lambda>x. x \<noteq> c) s)"
  have "takeWhile (\<lambda>x. x \<noteq> c) s \<noteq> s"
    using assms by (auto simp: takeWhile_eq_all_conv)
  then have "?i \<noteq> length s"
    by (metis takeWhile_eq_take take_all order_refl)
  with length_takeWhile_le[of "\<lambda>x. x \<noteq> c" s] have lt: "?i < length s"
    by simp
  have "s ! ?i = c"
    using lt nth_length_takeWhile[of "\<lambda>x. x \<noteq> c" s] by blast
  moreover have "takeWhile (\<lambda>x. x \<noteq> c) s = take ?i s"
    by (rule takeWhile_eq_take)
  moreover have "drop 1 (dropWhile (\<lambda>x. x \<noteq> c) s) = drop (Suc ?i) s"
    by (simp add: dropWhile_eq_drop)
  ultimately show ?thesis using lt unfolding split_first_def by auto
qed

lemma accepted_parseable: "accepted tok \<Longrightarrow> parseable tok"
proof (cases "CHR ''-'' \<in> set tok")
  case True
  assume "accepted tok"
  with True have ok: "py_int (fst (split_first CHR ''-'' tok)) \<noteq> None" "py_int (snd (split_first CHR ''-'' tok)) \<noteq> None"
    by (simp_all add: accepted_def)
  from split_first_take[OF True] obtain i where "i < length tok" "tok ! i = CHR ''-''"
    "fst (split_first CHR ''-'' tok) = take i tok" "snd (split_first CHR ''-'' tok) = drop (Suc i) tok"
    by blast
  with ok show ?thesis
    unfolding parseable_def list_ex_iff by auto
next
  case False
  assume "accepted tok"
  with False show ?thesis by (simp add: accepted_def parseable_def)
qed


lemma digits_acc_chars:
  "digits_acc acc v = Some n \<Longrightarrow> \<forall>c\<in>set v. isdigit c \<or> c = CHR ''_''"
  by (induction acc v rule: digits_acc.induct) (auto split: if_splits list.splits)

lemma digits_chars:
  "digits v = Some n \<Longrightarrow> \<forall>c\<in>set v. isdigit c \<or> c = CHR ''_''"
  by (auto simp: digits_def split: list.splits if_splits dest: digits_acc_chars)

lemma rstrip_decomp: "u = rev (dropWhile P (rev u)) @ rev (takeWhile P (rev u))"
  by (metis rev_append rev_rev_ident takeWhile_dropWhile_id)

lemma minus_facts:
  "\<not> int_space CHR ''-''" "\<not> isdigit CHR ''-''" "CHR ''-'' \<noteq> CHR ''_''" "CHR ''-'' \<noteq> CHR ''+''"
  by (simp_all add: int_space_def isdigit_def cp_def)

lemma py_int_minus_is_sign:
  assumes ok: "py_int s \<noteq> None" and m: "CHR ''-'' \<in> set s"
  shows "\<exists>ws r. s = ws @ CHR ''-'' # r \<and> list_all int_space ws"
proof -
  define t where "t = dropWhile int_space s"
  define u where "u = (case t of [] \<Rightarrow> [] | c # r \<Rightarrow> if c = CHR ''-'' \<or> c = CHR ''+'' then r else t)"
  define v where "v = rev (dropWhile int_space (rev u))"
  have pv: "py_int s = (case digits v of None \<Rightarrow> None
              | Some n \<Rightarrow> Some (if (case t of [] \<Rightarrow> False | c # _ \<Rightarrow> c = CHR ''-'') then - n else n))"
    by (simp only: py_int_def Let_def t_def u_def v_def)
  have s: "set s = set (takeWhile int_space s) \<union> set t"
    unfolding t_def by (metis set_append takeWhile_dropWhile_id)
  have ws: "list_all int_space (takeWhile int_space s)"
    unfolding list_all_iff by (meson set_takeWhileD)
  from ok pv obtain n where d: "digits v = Some n"
    by (cases "digits v") auto
  show ?thesis
  proof (cases "\<exists>r. t = CHR ''-'' # r")
    case True
    then obtain r where "t = CHR ''-'' # r" by blast
    then have "s = takeWhile int_space s @ CHR ''-'' # r"
      unfolding t_def by (metis takeWhile_dropWhile_id)
    with ws show ?thesis by blast
  next
    case False
    have vch: "\<forall>c\<in>set v. c \<noteq> CHR ''-''"
      using digits_chars[OF d] minus_facts by blast
    have "u = v @ rev (takeWhile int_space (rev u))"
      unfolding v_def by (rule rstrip_decomp)
    then have "set u = set v \<union> set (takeWhile int_space (rev u))"
      by (metis set_append set_rev)
    moreover have "\<forall>c\<in>set (takeWhile int_space (rev u)). c \<noteq> CHR ''-''"
      using minus_facts(1) by (metis set_takeWhileD)
    ultimately have uch: "\<forall>c\<in>set u. c \<noteq> CHR ''-''"
      using vch by blast
    have tch: "\<forall>c\<in>set t. c \<noteq> CHR ''-''"
    proof (cases t)
      case Nil
      then show ?thesis by simp
    next
      case (Cons c r)
      with False have c: "c \<noteq> CHR ''-''" by blast
      show ?thesis
      proof (cases "c = CHR ''+''")
        case True
        with Cons have "u = r" by (simp add: u_def)
        with uch Cons True show ?thesis by simp
      next
        case plus: False
        with c Cons have "u = t" by (simp add: u_def)
        with uch show ?thesis by simp
      qed
    qed
    have "\<forall>c\<in>set (takeWhile int_space s). c \<noteq> CHR ''-''"
      using minus_facts(1) by (metis set_takeWhileD)
    with tch s have "\<forall>c\<in>set s. c \<noteq> CHR ''-''"
      by blast
    with m show ?thesis by blast
  qed
qed

lemma int_space_isspace: "int_space c \<Longrightarrow> isspace c"
  by (auto simp: int_space_def isspace_def)

lemma strip_hd:
  assumes "strip x \<noteq> []"
  shows "\<not> isspace (hd (strip x))"
proof -
  let ?y = "dropWhile isspace x"
  have y: "?y = strip x @ rev (takeWhile isspace (rev ?y))"
    unfolding strip_def by (rule rstrip_decomp)
  have "?y \<noteq> []"
  proof
    assume "?y = []"
    then have "strip x = rev (dropWhile isspace (rev []))"
      by (simp only: strip_def)
    then have "strip x = []" by simp
    with assms show False by simp
  qed
  then have "\<not> isspace (hd ?y)" by (rule hd_dropWhile)
  moreover have "hd ?y = hd (strip x)"
    using y assms by (metis hd_append2)
  ultimately show ?thesis by simp
qed

lemma tokens_stripped: "tok \<in> set (tokens s) \<Longrightarrow> tok \<noteq> [] \<and> \<not> isspace (hd tok)"
  by (auto simp: tokens_def strip_hd)

lemma sign_is_head:
  assumes "py_int s \<noteq> None" "CHR ''-'' \<in> set s" "s \<noteq> []" "\<not> isspace (hd s)"
  shows "hd s = CHR ''-''"
proof -
  from py_int_minus_is_sign[OF assms(1,2)] obtain ws r
    where s: "s = ws @ CHR ''-'' # r" and ws: "list_all int_space ws" by blast
  show ?thesis
  proof (cases ws)
    case Nil
    with s show ?thesis by simp
  next
    case (Cons c cs)
    with s ws have "hd s = c" "int_space c" by simp_all
    with assms(4) show ?thesis by (simp add: int_space_isspace)
  qed
qed

lemma parseable_accepted:
  assumes p: "parseable tok" and ne: "tok \<noteq> []" and sp: "\<not> isspace (hd tok)" and hd: "hd tok \<noteq> CHR ''-''"
  shows "accepted tok"
proof (cases "CHR ''-'' \<in> set tok")
  case False
  with p show ?thesis
  proof -
    have "\<And>i. i < length tok \<Longrightarrow> tok ! i \<noteq> CHR ''-''"
      using False nth_mem by metis
    then have "py_int tok \<noteq> None"
      using p unfolding parseable_def list_ex_iff by auto
    with False show ?thesis by (simp add: accepted_def)
  qed
next
  case True
  have "py_int tok = None"
    using sign_is_head[OF _ True ne sp] hd by blast
  with p obtain i where i: "i < length tok" "tok ! i = CHR ''-''"
    and a: "py_int (take i tok) \<noteq> None" and b: "py_int (drop (Suc i) tok) \<noteq> None"
    by (auto simp: parseable_def list_ex_iff)
  have nodash: "CHR ''-'' \<notin> set (take i tok)"
  proof
    assume m: "CHR ''-'' \<in> set (take i tok)"
    then have i0: "0 < i" by (cases i) auto
    then have "take i tok \<noteq> []" "hd (take i tok) = hd tok"
      using ne by (simp_all add: hd_take)
    with sign_is_head[OF a m] sp hd show False by simp
  qed
  have tw: "takeWhile (\<lambda>x. x \<noteq> CHR ''-'') tok = take i tok"
  proof -
    have "tok = take i tok @ tok ! i # drop (Suc i) tok"
      using i(1) by (simp add: id_take_nth_drop)
    then have "takeWhile (\<lambda>x. x \<noteq> CHR ''-'') tok
             = takeWhile (\<lambda>x. x \<noteq> CHR ''-'') (take i tok @ CHR ''-'' # drop (Suc i) tok)"
      using i(2) by simp
    also have "\<dots> = take i tok"
      using nodash by (subst takeWhile_append2) auto
    finally show ?thesis .
  qed
  have "length (takeWhile (\<lambda>x. x \<noteq> CHR ''-'') tok) = i"
    using tw i(1) by simp
  then have "drop 1 (dropWhile (\<lambda>x. x \<noteq> CHR ''-'') tok) = drop (Suc i) tok"
    by (simp add: dropWhile_eq_drop)
  with tw a b True show ?thesis
    by (simp add: accepted_def split_first_def)
qed

lemma accepted_no_leading_minus:
  assumes "accepted tok" "tok \<noteq> []"
  shows "hd tok \<noteq> CHR ''-''"
proof
  assume h: "hd tok = CHR ''-''"
  with assms(2) have m: "CHR ''-'' \<in> set tok" by (metis hd_in_set)
  from h assms(2) have "takeWhile (\<lambda>x. x \<noteq> CHR ''-'') tok = []"
    by (cases tok) auto
  then have "py_int (fst (split_first CHR ''-'' tok)) = None"
    by (simp add: split_first_def py_int_def digits_def)
  with assms(1) m show False by (simp add: accepted_def)
qed

lemma parse_ports_sound:
  assumes "list_all accepted (tokens s)"
  shows "\<exists>ps. parse_ports s = Inr ps \<and> sorted ps \<and> distinct ps \<and> (\<forall>p\<in>set ps. 1 \<le> p \<and> p \<le> 65535) \<and>
           set ps = {p \<in> \<Union> (token_values ` set (tokens s)). 1 \<le> p \<and> p \<le> 65535}"
proof -
  let ?U = "\<Union> (token_values ` set (tokens s))"
  have loop: "parse_loop {} (split_on CHR '','' s) = Inr ?U"
    using parse_loop_accepted[of "split_on CHR '','' s" "{}"] assms
    by (simp add: tokens_def)
  have fin: "finite {p \<in> ?U. 1 \<le> p \<and> p \<le> 65535}"
    by (simp add: finite_token_values)
  let ?ps = "sorted_list_of_set {p \<in> ?U. 1 \<le> p \<and> p \<le> 65535}"
  have "parse_ports s = Inr ?ps"
    by (simp add: parse_ports_def loop)
  moreover have "sorted ?ps" "distinct ?ps" by simp_all
  moreover have "set ?ps = {p \<in> ?U. 1 \<le> p \<and> p \<le> 65535}"
    using fin by simp
  ultimately show ?thesis by auto
qed

text \<open>
  The token \<open>-5\<close> is parseable as an integer, yet \<open>parse_ports\<close> raises \<open>ValueError\<close> on it: the
  token contains \<open>-\<close>, is split at it, and the part before it is empty.
\<close>

theorem parse_ports_minus_counterexample:
  "list_all parseable (tokens ''-5'') \<and> parse_ports ''-5'' = Inl ValueError"
  by code_simp

text \<open>
  Claim C6, amended. For every port expression whose non-empty tokens are parseable and do
  not begin with \<open>-\<close>, \<open>parse_ports\<close> returns an ascending list of distinct values between 1 and
  65535, namely the values in that range that some token stands for: tokens are taken
  without surrounding whitespace, empty tokens are skipped, the endpoints of a range are
  taken in either order, and values outside the range are dropped. In particular
  \<open>parse_ports("22,80-82") = [22, 80, 81, 82]\<close> and \<open>parse_ports("80,80-81") = [80, 81]\<close>.
\<close>

theorem parse_ports_ascending:
  "(list_all (\<lambda>tok. parseable tok \<and> hd tok \<noteq> CHR ''-'') (tokens s) \<longrightarrow>
      (\<exists>ps. parse_ports s = Inr ps \<and> sorted ps \<and> distinct ps \<and> (\<forall>p\<in>set ps. 1 \<le> p \<and> p \<le> 65535) \<and>
            set ps = {p \<in> \<Union> (token_values ` set (tokens s)). 1 \<le> p \<and> p \<le> 65535})) \<and>
   parse_ports ''22,80-82'' = Inr [22, 80, 81, 82] \<and>
   parse_ports ''80,80-81'' = Inr [80, 81]"
proof (intro conjI impI)
  assume "list_all (\<lambda>tok. parseable tok \<and> hd tok \<noteq> CHR ''-'') (tokens s)"
  then have "list_all accepted (tokens s)"
    unfolding list_all_iff using parseable_accepted tokens_stripped by blast
  then show "\<exists>ps. parse_ports s = Inr ps \<and> sorted ps \<and> distinct ps \<and> (\<forall>p\<in>set ps. 1 \<le> p \<and> p \<le> 65535) \<and>
            set ps = {p \<in> \<Union> (token_values ` set (tokens s)). 1 \<le> p \<and> p \<le> 65535}"
    by (rule parse_ports_sound)
next
  show "parse_ports ''22,80-82'' = Inr [22, 80, 81, 82]" by code_simp
next
  show "parse_ports ''80,80-81'' = Inr [80, 81]" by code_simp
qed

text \<open>
  An expression with whitespace, a reversed range, empty tokens, values out of range and an
  underscore.
\<close>

theorem parse_ports_ascending_witness:
  "list_all (\<lambda>tok. parseable tok \<and> hd tok \<noteq> CHR ''-'') (tokens '' 100 - 98 ,, 0, 70000,1_0,'') \<and>
   parse_ports '' 100 - 98 ,, 0, 70000,1_0,'' = Inr [10, 98, 99, 100]"
proof -
  have h: "list_all (\<lambda>tok. parseable tok \<and> hd tok \<noteq> CHR ''-'') (tokens '' 100 - 98 ,, 0, 70000,1_0,'')"
    by code_simp
  have v: "parse_ports '' 100 - 98 ,, 0, 70000,1_0,'' = Inr [10, 98, 99, 100]"
    by code_simp
  from parse_ports_ascending[of "'' 100 - 98 ,, 0, 70000,1_0,''"] h v show ?thesis
    by blast
qed

lemma parse_ports_Inr_accepted: "parse_ports s = Inr ps \<Longrightarrow> list_all accepted (tokens s)"
  by (auto simp: parse_ports_def tokens_def split: sum.splits dest: parse_loop_Inr_accepted)

lemma parse_ports_error: "parse_ports s = Inl e \<Longrightarrow> e = ValueError"
  by (auto simp: parse_ports_def split: sum.splits dest: parse_loop_error)

text \<open>
  Claim C7. For every port expression with a non-empty token that is not parseable,
  \<open>parse_ports\<close> raises \<open>ValueError\<close>, and a session with that port expression ends with this
  error before anything has happened: no line is printed, no probe performs an action,
  and no results are returned.
\<close>

theorem parse_error_before_scanning:
  assumes "list_ex (\<lambda>tok. \<not> parseable tok) (tokens s)"
  shows "parse_ports s = Inl ValueError \<and> main_async w (a\<lparr>arg_ports := s\<rparr>) = Some ([], Raises ValueError)"
proof -
  have "\<not> list_all accepted (tokens s)"
    using assms accepted_parseable unfolding list_all_iff list_ex_iff by blast
  then have "parse_ports s = Inl ValueError"
    using parse_ports_Inr_accepted parse_ports_error by (cases "parse_ports s") auto
  then show ?thesis by (simp add: main_async_def)
qed

section \<open>The target expander\<close>

lemma prefix_from_ip_int_le: "prefix_from_ip_int m = Some p \<Longrightarrow> p \<le> 32"
proof -
  assume a: "prefix_from_ip_int m = Some p"
  then obtain ps where "filter (\<lambda>p. m = 2 ^ 32 - 2 ^ (32 - p)) [0..<33] = p # ps"
    by (auto simp: prefix_from_ip_int_def split: list.splits)
  then have "p \<in> set (filter (\<lambda>p. m = 2 ^ 32 - 2 ^ (32 - p)) [0..<33])"
    by simp
  then have "p \<in> set [0..<33]" by (simp only: set_filter) blast
  then show ?thesis by simp
qed

lemma ipv4_prefix_le: "ipv4_prefix s = Some p \<Longrightarrow> p \<le> 32"
  unfolding ipv4_prefix_def
  by (auto split: option.splits if_splits dest: prefix_from_ip_int_le)

lemma ipv4_network_le: "ipv4_network s = Some (n, p) \<Longrightarrow> p \<le> 32"
  unfolding ipv4_network_def
  by (auto split: list.splits option.splits dest: ipv4_prefix_le)

lemma ip_network_Inr:
  "ip_network lib s = Inr net \<Longrightarrow>
   (\<exists>n p. net = IPv4Network n p \<and> p \<le> 32) \<or> (\<exists>n p. net = IPv6Network n p \<and> p \<le> 128)"
  unfolding ip_network_def
  by (auto split: option.splits if_splits dest: ipv4_network_le)

lemma ip_network_Inl: "ip_network lib s = Inl e \<Longrightarrow> e = ValueError"
  unfolding ip_network_def by (auto split: option.splits if_splits)

lemma ip_address_Inl: "ip_address lib s = Inl e \<Longrightarrow> e = ValueError"
  unfolding ip_address_def by (auto split: option.splits)

lemma two_le_power: "2 \<le> k \<Longrightarrow> (4::int) \<le> 2 ^ k"
proof -
  assume "2 \<le> k"
  then have "(2::int) ^ 2 \<le> 2 ^ k" by (intro power_increasing) simp_all
  then show ?thesis by simp
qed

lemma one_le_power: "(1::int) \<le> 2 ^ k"
  by simp

lemma sorted_list_of_upto: "sorted_list_of_set (set [a..b]) = [a..b::int]"
  by (simp add: sorted_list_of_set_sort_remdups distinct_remdups_id)

lemma hosts_v4:
  assumes "p \<le> 32"
  shows "map addr_int (hosts (IPv4Network n p)) = sorted_list_of_set (usable (IPv4Network n p))"
proof -
  consider "p = 32" | "p = 31" | "p \<le> 30" using assms by linarith
  then show ?thesis
  proof cases
    case 1
    have "{n ..< n + 1} = {n}" by auto
    with 1 show ?thesis by (simp add: comp_def)
  next
    case 2
    have "{n ..< n + 2} = set [n .. n + 1]" by auto
    moreover note sorted_list_of_upto[of "n" "n + 1"]
    ultimately show ?thesis using 2 by (simp add: comp_def)
  next
    case 3
    let ?b = "n + 2 ^ (32 - p)"
    have "{n ..< ?b} - {n, ?b - 1} = set [n + 1 .. ?b - 2]" by auto
    moreover note sorted_list_of_upto[of "n + 1" "?b - 2"]
    ultimately show ?thesis using 3 by (simp add: comp_def)
  qed
qed

lemma hosts_v6:
  assumes "p \<le> 128"
  shows "map addr_int (hosts (IPv6Network n p)) = sorted_list_of_set (usable (IPv6Network n p))"
proof -
  consider "p = 128" | "p = 127" | "p \<le> 126" using assms by linarith
  then show ?thesis
  proof cases
    case 1
    have "{n ..< n + 1} = {n}" by auto
    with 1 show ?thesis by (simp add: comp_def)
  next
    case 2
    have "{n ..< n + 2} = set [n .. n + 1]" by auto
    moreover note sorted_list_of_upto[of "n" "n + 1"]
    ultimately show ?thesis using 2 by (simp add: comp_def)
  next
    case 3
    let ?b = "n + 2 ^ (128 - p)"
    have "{n ..< ?b} - {n} = set [n + 1 .. ?b - 1]" by auto
    moreover note sorted_list_of_upto[of "n + 1" "?b - 1"]
    ultimately show ?thesis using 3 by (simp add: comp_def)
  qed
qed

lemma hosts_nonempty_v4: "p \<le> 32 \<Longrightarrow> hosts (IPv4Network n p) \<noteq> []"
proof -
  assume p: "p \<le> 32"
  show ?thesis
  proof (cases "p \<ge> 31")
    case True
    with p have "p = 31 \<or> p = 32" by linarith
    then show ?thesis by auto
  next
    case False
    then have "2 \<le> 32 - p" by simp
    from two_le_power[OF this] have "n + 1 \<le> n + 2 ^ (32 - p) - 2" by simp
    with False show ?thesis by (simp add: upto_rec1)
  qed
qed

lemma hosts_nonempty_v6: "p \<le> 128 \<Longrightarrow> hosts (IPv6Network n p) \<noteq> []"
proof -
  assume p: "p \<le> 128"
  show ?thesis
  proof (cases "p \<ge> 127")
    case True
    with p have "p = 127 \<or> p = 128" by linarith
    then show ?thesis by auto
  next
    case False
    then have "2 \<le> 128 - p" by simp
    from two_le_power[OF this] have "n + 1 \<le> n + 2 ^ (128 - p) - 1" by simp
    with False show ?thesis by (simp add: upto_rec1)
  qed
qed

lemma hosts_of_parsed:
  assumes "ip_network lib s = Inr net"
  shows "hosts net \<noteq> []" and "map addr_int (hosts net) = sorted_list_of_set (usable net)"
  using ip_network_Inr[OF assms] hosts_nonempty_v4 hosts_nonempty_v6 hosts_v4 hosts_v6
  by blast+


lemma expand_targets_cidr:
  assumes "CHR ''/'' \<in> set (strip s)" "ip_network lib (strip s) = Inr net"
  shows "expand_targets lib s = Returns (map (str_ip lib) (hosts net))"
  using assms by (simp add: expand_targets_def)

lemma expand_targets_bad_cidr:
  assumes "CHR ''/'' \<in> set (strip s)" "ip_network lib (strip s) = Inl e"
  shows "expand_targets lib s = Returns [strip s]"
  using assms ip_network_Inl[OF assms(2)] by (simp add: expand_targets_def)

lemma expand_targets_plain:
  assumes "CHR ''/'' \<notin> set (strip s)"
  shows "expand_targets lib s = Returns [strip s]"
  using assms by (auto simp: expand_targets_def Let_def split: sum.splits dest: ip_address_Inl)

lemma expand_targets_nonempty: "\<exists>ts. expand_targets lib s = Returns ts \<and> ts \<noteq> []"
proof (cases "CHR ''/'' \<in> set (strip s)")
  case False
  then show ?thesis by (simp add: expand_targets_plain)
next
  case True
  show ?thesis
  proof (cases "ip_network lib (strip s)")
    case (Inl e)
    with True show ?thesis by (simp add: expand_targets_bad_cidr)
  next
    case (Inr net)
    with True hosts_of_parsed(1)[OF Inr] show ?thesis by (simp add: expand_targets_cidr)
  qed
qed

lemma same_family_hosts: "list_all (same_family net) (hosts net)"
  by (cases net) (auto simp: list_all_iff)

text \<open>
  A hostname with a leading space is not returned verbatim: \<open>expand_targets\<close> strips its
  argument first.
\<close>

theorem expand_targets_trim_counterexample:
  "expand_targets no_ipv6 '' scanme.example.org'' = Returns [''scanme.example.org''] \<and>
   ''scanme.example.org'' \<noteq> '' scanme.example.org''"
  by code_simp

text \<open>
  Claim C8, amended. For every string, \<open>expand_targets\<close> returns a non-empty list and does not
  raise. When the trimmed string contains \<open>/\<close> and is a valid network, the list is the usable
  host addresses of the block, of the family of the network, in ascending order. In every
  other case, an invalid network, an IP literal or a hostname, the list holds the trimmed
  string alone, which is the string itself when it has no surrounding whitespace. In
  particular \<open>10.0.0.0/30\<close> expands to its two usable addresses.
\<close>

theorem expand_targets_total:
  "(\<exists>ts. expand_targets lib s = Returns ts \<and> ts \<noteq> []) \<and>
   (CHR ''/'' \<in> set (strip s) \<longrightarrow>
      (\<forall>net. ip_network lib (strip s) = Inr net \<longrightarrow>
         expand_targets lib s = Returns (map (str_ip lib) (hosts net)) \<and>
         list_all (same_family net) (hosts net) \<and>
         map addr_int (hosts net) = sorted_list_of_set (usable net))) \<and>
   (CHR ''/'' \<in> set (strip s) \<longrightarrow>
      (\<forall>e. ip_network lib (strip s) = Inl e \<longrightarrow> expand_targets lib s = Returns [strip s])) \<and>
   (CHR ''/'' \<notin> set (strip s) \<longrightarrow> expand_targets lib s = Returns [strip s]) \<and>
   (strip s = s \<longrightarrow> CHR ''/'' \<notin> set s \<longrightarrow> expand_targets lib s = Returns [s]) \<and>
   expand_targets lib ''10.0.0.0/30'' = Returns [''10.0.0.1'', ''10.0.0.2''] \<and>
   expand_targets lib ''10.0.0.5'' = Returns [''10.0.0.5''] \<and>
   expand_targets lib ''not-an-ip.example'' = Returns [''not-an-ip.example'']"
proof (intro conjI impI allI)
  show "\<exists>ts. expand_targets lib s = Returns ts \<and> ts \<noteq> []"
    by (rule expand_targets_nonempty)
next
  fix net assume "CHR ''/'' \<in> set (strip s)" "ip_network lib (strip s) = Inr net"
  then show "expand_targets lib s = Returns (map (str_ip lib) (hosts net))"
    by (rule expand_targets_cidr)
next
  fix net show "list_all (same_family net) (hosts net)"
    by (rule same_family_hosts)
next
  fix net assume "ip_network lib (strip s) = Inr net"
  then show "map addr_int (hosts net) = sorted_list_of_set (usable net)"
    by (rule hosts_of_parsed(2))
next
  fix e assume "CHR ''/'' \<in> set (strip s)" "ip_network lib (strip s) = Inl e"
  then show "expand_targets lib s = Returns [strip s]"
    by (rule expand_targets_bad_cidr)
next
  assume "CHR ''/'' \<notin> set (strip s)"
  then show "expand_targets lib s = Returns [strip s]"
    by (rule expand_targets_plain)
next
  assume "strip s = s" "CHR ''/'' \<notin> set s"
  then show "expand_targets lib s = Returns [s]"
    using expand_targets_plain[of s lib] by simp
next
  show "expand_targets lib ''10.0.0.0/30'' = Returns [''10.0.0.1'', ''10.0.0.2'']"
    by code_simp
next
  have "strip ''10.0.0.5'' = ''10.0.0.5''" by code_simp
  then show "expand_targets lib ''10.0.0.5'' = Returns [''10.0.0.5'']"
    using expand_targets_plain[of "''10.0.0.5''" lib] by simp
next
  have "strip ''not-an-ip.example'' = ''not-an-ip.example''" by code_simp
  then show "expand_targets lib ''not-an-ip.example'' = Returns [''not-an-ip.example'']"
    using expand_targets_plain[of "''not-an-ip.example''" lib] by simp
qed

text \<open>
  A block of eight addresses given by one of its hosts, a prefix length out of range, and a
  hostname.
\<close>

theorem expand_targets_total_witness:
  "CHR ''/'' \<in> set (strip '' 192.168.1.77/29'') \<and>
   ip_network no_ipv6 (strip '' 192.168.1.77/29'') = Inr (IPv4Network 3232235848 29) \<and>
   expand_targets no_ipv6 '' 192.168.1.77/29'' =
     Returns [''192.168.1.73'', ''192.168.1.74'', ''192.168.1.75'', ''192.168.1.76'', ''192.168.1.77'', ''192.168.1.78''] \<and>
   map addr_int (hosts (IPv4Network 3232235848 29)) = sorted_list_of_set (usable (IPv4Network 3232235848 29)) \<and>
   CHR ''/'' \<in> set (strip ''10.0.0.0/33'') \<and>
   ip_network no_ipv6 (strip ''10.0.0.0/33'') = Inl ValueError \<and>
   expand_targets no_ipv6 ''10.0.0.0/33'' = Returns [''10.0.0.0/33''] \<and>
   CHR ''/'' \<notin> set (strip ''scanme.example.org'') \<and>
   strip ''scanme.example.org'' = ''scanme.example.org'' \<and>
   expand_targets no_ipv6 ''scanme.example.org'' = Returns [''scanme.example.org'']"
proof -
  have a: "CHR ''/'' \<in> set (strip '' 192.168.1.77/29'')" by code_simp
  have b: "ip_network no_ipv6 (strip '' 192.168.1.77/29'') = Inr (IPv4Network 3232235848 29)" by code_simp
  have c: "map (str_ip no_ipv6) (hosts (IPv4Network 3232235848 29)) =
     [''192.168.1.73'', ''192.168.1.74'', ''192.168.1.75'', ''192.168.1.76'', ''192.168.1.77'', ''192.168.1.78'']"
    by code_simp
  have d: "CHR ''/'' \<in> set (strip ''10.0.0.0/33'')" by code_simp
  have e: "ip_network no_ipv6 (strip ''10.0.0.0/33'') = Inl ValueError" by code_simp
  have f: "strip ''10.0.0.0/33'' = ''10.0.0.0/33''" by code_simp
  have g: "CHR ''/'' \<notin> set (strip ''scanme.example.org'')" by code_simp
  have h: "strip ''scanme.example.org'' = ''scanme.example.org''" by code_simp
  from expand_targets_total[of no_ipv6 "'' 192.168.1.77/29''"] a b c
  have 1: "expand_targets no_ipv6 '' 192.168.1.77/29'' =
     Returns [''192.168.1.73'', ''192.168.1.74'', ''192.168.1.75'', ''192.168.1.76'', ''192.168.1.77'', ''192.168.1.78'']"
    and 2: "map addr_int (hosts (IPv4Network 3232235848 29)) = sorted_list_of_set (usable (IPv4Network 3232235848 29))"
    by metis+
  from expand_targets_total[of no_ipv6 "''10.0.0.0/33''"] d e f
  have 3: "expand_targets no_ipv6 ''10.0.0.0/33'' = Returns [''10.0.0.0/33'']"
    by metis
  from expand_targets_total[of no_ipv6 "''scanme.example.org''"] g h
  have 4: "expand_targets no_ipv6 ''scanme.example.org'' = Returns [''scanme.example.org'']"
    by metis
  from a b d e g h 1 2 3 4 show ?thesis by blast
qed




section \<open>The port prober\<close>

lemmas probe_defs = scan_port_def demo_world_def wait_for_def banner_grab_def stream_read_def
  probe_handlers_def BANNER_READ_BYTES_def strip_def isspace_def cp_def

lemma probe_handlers_Exception: "is_Exception e \<Longrightarrow> probe_handlers port e = Returns (port, False, [])"
  by (simp add: probe_handlers_def)

lemma probe_handlers_Raises: "probe_handlers port e = Raises e' \<Longrightarrow> e' = e \<and> \<not> is_Exception e"
  by (auto simp: probe_handlers_def split: if_splits)

lemma banner_grab_Raises: "banner_grab w rd t = Raises e \<Longrightarrow> \<not> is_Exception e"
  by (auto simp: banner_grab_def split: result.splits if_splits)

lemma scan_port_connect_fails:
  assumes "wait_for (open_connection w host port) timeout = Raises e" "is_Exception e"
  shows "scan_port w host port timeout do_banner =
           ([SemAcquire, Connect timeout, SemRelease], Returns (port, False, []))"
  using assms by (simp add: scan_port_def probe_handlers_Exception)

lemma scan_port_Raises:
  assumes "snd (scan_port w host port timeout do_banner) = Raises e"
  shows "\<not> is_Exception e"
  using assms
  by (auto simp: scan_port_def Let_def split: result.splits option.splits if_splits
           dest: probe_handlers_Raises banner_grab_Raises)

lemma scan_port_port:
  assumes "snd (scan_port w host port timeout do_banner) = Returns (p, is_open, banner)"
  shows "p = port"
  using assms
  by (auto simp: scan_port_def Let_def probe_handlers_def split: result.splits option.splits if_splits)


lemma scan_port_Returns:
  assumes "raises_only_Exceptions (open_connection w host port)"
  shows "\<exists>is_open banner. snd (scan_port w host port timeout do_banner) = Returns (port, is_open, banner)"
proof (cases "snd (scan_port w host port timeout do_banner)")
  case (Returns r)
  obtain p is_open banner where r: "r = (p, is_open, banner)" by (cases r)
  with Returns scan_port_port[of w host port timeout do_banner p is_open banner]
  show ?thesis by simp
next
  case (Raises e)
  then have ne: "\<not> is_Exception e" by (rule scan_port_Raises)
  have "is_Exception e"
  proof (cases "open_connection w host port")
    case Pending
    with Raises show ?thesis
      by (simp add: scan_port_def wait_for_def probe_handlers_def)
  next
    case (Fails d e1)
    with assms have "is_Exception e1" by (simp add: raises_only_Exceptions_def)
    with Fails Raises show ?thesis
      by (simp add: scan_port_def wait_for_def probe_handlers_def split: if_splits)
  next
    case (Completes d conn)
    with assms have c: "case reader conn of Fails d1 e \<Rightarrow> is_Exception e | _ \<Rightarrow> True"
      "case close_exn conn of Some e \<Rightarrow> is_Exception e | None \<Rightarrow> True"
      "case wait_closed_exn conn of Some e \<Rightarrow> is_Exception e | None \<Rightarrow> True"
      by (simp_all add: raises_only_Exceptions_def)
    have bg: "\<exists>b. banner_grab w (reader conn) t = Returns b" for t
      using c(1)
      by (cases "reader conn") (auto simp: banner_grab_def wait_for_def stream_read_def)
    from Raises Completes c(2,3) bg[of "min (1 / 2) timeout"] show ?thesis
      by (auto simp: scan_port_def wait_for_def Let_def probe_handlers_def
               split: if_splits option.splits result.splits)
  qed
  with ne show ?thesis by simp
qed

text \<open>
  Claim C3. Whenever the connection attempt ends in an instance of \<open>Exception\<close>, be it the
  timeout, a refusal, another \<open>OSError\<close> or anything else, \<open>scan_port\<close> returns
  \<open>(port, False, '')\<close>. A probe in which only instances of \<open>Exception\<close> are raised always
  returns an outcome for its port, and what \<open>scan_port\<close> raises is never an instance of
  \<open>Exception\<close>.
\<close>

theorem scan_port_never_raises:
  "(is_Exception e \<longrightarrow> wait_for (open_connection w host port) timeout = Raises e \<longrightarrow>
      scan_port w host port timeout do_banner =
        ([SemAcquire, Connect timeout, SemRelease], Returns (port, False, []))) \<and>
   (open_connection w host port = Pending \<longrightarrow>
      snd (scan_port w host port timeout do_banner) = Returns (port, False, [])) \<and>
   (open_connection w host port = Completes d conn \<longrightarrow> timeout \<le> d \<longrightarrow>
      snd (scan_port w host port timeout do_banner) = Returns (port, False, [])) \<and>
   (open_connection w host port = Fails d e \<longrightarrow> timeout \<le> d \<longrightarrow>
      snd (scan_port w host port timeout do_banner) = Returns (port, False, [])) \<and>
   (open_connection w host port = Fails d e \<longrightarrow> d < timeout \<longrightarrow> is_Exception e \<longrightarrow>
      snd (scan_port w host port timeout do_banner) = Returns (port, False, [])) \<and>
   (raises_only_Exceptions (open_connection w host port) \<longrightarrow>
      (\<exists>is_open banner. snd (scan_port w host port timeout do_banner) = Returns (port, is_open, banner))) \<and>
   (snd (scan_port w host port timeout do_banner) = Raises e \<longrightarrow> \<not> is_Exception e)"
proof (intro conjI impI)
  assume "is_Exception e" "wait_for (open_connection w host port) timeout = Raises e"
  then show "scan_port w host port timeout do_banner =
        ([SemAcquire, Connect timeout, SemRelease], Returns (port, False, []))"
    by (simp add: scan_port_connect_fails)
next
  assume "open_connection w host port = Pending"
  then have "wait_for (open_connection w host port) timeout = Raises TimeoutError"
    by (simp add: wait_for_def)
  then show "snd (scan_port w host port timeout do_banner) = Returns (port, False, [])"
    by (simp add: scan_port_connect_fails)
next
  assume "open_connection w host port = Completes d conn" "timeout \<le> d"
  then have "wait_for (open_connection w host port) timeout = Raises TimeoutError"
    by (simp add: wait_for_def)
  then show "snd (scan_port w host port timeout do_banner) = Returns (port, False, [])"
    by (simp add: scan_port_connect_fails)
next
  assume "open_connection w host port = Fails d e" "timeout \<le> d"
  then have "wait_for (open_connection w host port) timeout = Raises TimeoutError"
    by (simp add: wait_for_def)
  then show "snd (scan_port w host port timeout do_banner) = Returns (port, False, [])"
    by (simp add: scan_port_connect_fails)
next
  assume "open_connection w host port = Fails d e" "d < timeout" "is_Exception e"
  then have "wait_for (open_connection w host port) timeout = Raises e" "is_Exception e"
    by (simp_all add: wait_for_def)
  then show "snd (scan_port w host port timeout do_banner) = Returns (port, False, [])"
    by (simp add: scan_port_connect_fails)
next
  assume "raises_only_Exceptions (open_connection w host port)"
  then show "\<exists>is_open banner. snd (scan_port w host port timeout do_banner) = Returns (port, is_open, banner)"
    by (rule scan_port_Returns)
next
  assume "snd (scan_port w host port timeout do_banner) = Raises e"
  then show "\<not> is_Exception e" by (rule scan_port_Raises)
qed

text \<open>
  A refused port, a port that never answers, a port that resets the connection, and a
  keyboard interrupt during the connection attempt.
\<close>

theorem scan_port_never_raises_witness:
  "is_Exception ConnectionRefusedError \<and>
   wait_for (open_connection demo_world ''10.0.0.5'' 81) 1 = Raises ConnectionRefusedError \<and>
   scan_port demo_world ''10.0.0.5'' 81 1 False =
     ([SemAcquire, Connect 1, SemRelease], Returns (81, False, [])) \<and>
   open_connection demo_world ''10.0.0.5'' 8080 = Pending \<and>
   snd (scan_port demo_world ''10.0.0.5'' 8080 1 False) = Returns (8080, False, []) \<and>
   raises_only_Exceptions (open_connection demo_world ''10.0.0.5'' 443) \<and>
   snd (scan_port demo_world ''10.0.0.5'' 443 1 True) = Returns (443, False, []) \<and>
   snd (scan_port demo_world ''10.0.0.5'' 9 1 False) = Raises KeyboardInterrupt \<and>
   \<not> is_Exception KeyboardInterrupt"
proof -
  have a: "is_Exception ConnectionRefusedError" by simp
  have b: "wait_for (open_connection demo_world ''10.0.0.5'' 81) 1 = Raises ConnectionRefusedError"
    by (simp add: demo_world_def wait_for_def)
  have c: "open_connection demo_world ''10.0.0.5'' 8080 = Pending"
    by (simp add: demo_world_def)
  have d: "raises_only_Exceptions (open_connection demo_world ''10.0.0.5'' 443)"
    by (simp add: demo_world_def raises_only_Exceptions_def)
  have e: "snd (scan_port demo_world ''10.0.0.5'' 443 1 True) = Returns (443, False, [])"
    by (simp add: probe_defs)
  have f: "snd (scan_port demo_world ''10.0.0.5'' 9 1 False) = Raises KeyboardInterrupt"
    by (simp add: probe_defs)
  note T = scan_port_never_raises[of ConnectionRefusedError demo_world "''10.0.0.5''" 81 1 False]
  from T a b have 1: "scan_port demo_world ''10.0.0.5'' 81 1 False =
     ([SemAcquire, Connect 1, SemRelease], Returns (81, False, []))"
    by blast
  from scan_port_never_raises[of _ demo_world "''10.0.0.5''" 8080 1 False] c
  have 2: "snd (scan_port demo_world ''10.0.0.5'' 8080 1 False) = Returns (8080, False, [])"
    by blast
  from scan_port_never_raises[of KeyboardInterrupt demo_world "''10.0.0.5''" 9 1 False] f
  have 3: "\<not> is_Exception KeyboardInterrupt"
    by blast
  from a b c d e f 1 2 3 show ?thesis by blast
qed

text \<open>
  Claim C4 fails on the code. The connect to port 443 completes within the timeout, then the
  peer resets the connection and \<open>wait_closed\<close> raises \<open>ConnectionResetError\<close>. The handler
  around \<open>wait_closed\<close> catches \<open>AttributeError\<close> only, so the error reaches the handler of the
  connection attempt and the port is reported as not open, with and without banner
  grabbing.
\<close>

theorem scan_port_close_error:
  "open_connection demo_world ''10.0.0.5'' 443 =
     Completes (1 / 50) \<lparr>reader = Fails (1 / 5) ConnectionResetError,
                          close_exn = None, wait_closed_exn = Some ConnectionResetError\<rparr> \<and>
   scan_port demo_world ''10.0.0.5'' 443 1 True =
     ([SemAcquire, Connect 1, BannerRead 1024 (1 / 2), Close, WaitClosed, SemRelease],
      Returns (443, False, [])) \<and>
   scan_port demo_world ''10.0.0.5'' 443 1 False =
     ([SemAcquire, Connect 1, Close, WaitClosed, SemRelease], Returns (443, False, []))"
  by (simp add: probe_defs)

lemma banner_grab_cases:
  "rd = Completes d data \<Longrightarrow> d < t \<Longrightarrow>
     banner_grab w rd t = Returns (strip (decode_replace w (take 1024 data)))"
  "rd = Completes d data \<Longrightarrow> t \<le> d \<Longrightarrow> banner_grab w rd t = Returns []"
  "rd = Pending \<Longrightarrow> banner_grab w rd t = Returns []"
  "rd = Fails d e \<Longrightarrow> is_Exception e \<Longrightarrow> banner_grab w rd t = Returns []"
  by (simp_all add: banner_grab_def wait_for_def stream_read_def BANNER_READ_BYTES_def)

lemma scan_port_banner_trace:
  assumes "wait_for (open_connection w host port) timeout = Returns conn"
  shows "\<exists>tr. fst (scan_port w host port timeout True) =
            [SemAcquire, Connect timeout, BannerRead 1024 (min (1 / 2) timeout)] @ tr \<and>
            (\<forall>n t. BannerRead n t \<notin> set tr)"
  using assms
  by (auto simp: scan_port_def Let_def BANNER_READ_BYTES_def split: result.splits option.splits)

lemma scan_port_empty_banner:
  assumes "wait_for (open_connection w host port) timeout = Returns conn"
    and "banner_grab w (reader conn) (min (1 / 2) timeout) = Returns []"
  shows "snd (scan_port w host port timeout True) = snd (scan_port w host port timeout False)"
  using assms by (auto simp: scan_port_def split: option.splits)

lemma scan_port_open_banner:
  assumes "wait_for (open_connection w host port) timeout = Returns conn"
    and "banner_grab w (reader conn) (min (1 / 2) timeout) = Returns b"
    and "close_exn conn = None" "wait_closed_exn conn = None"
  shows "snd (scan_port w host port timeout True) = Returns (port, True, b)"
  using assms by (simp add: scan_port_def)

text \<open>
  After a connect that completed within the timeout, with banner grabbing enabled,
  the task performs exactly one banner read, of at most 1024 bytes under the timeout
  \<open>min(0.5, timeout)\<close>. Data that arrives before that timeout gives the banner: at most 1024
  bytes, decoded with replacement and stripped. Data that arrives later or never, and a read
  that raises an instance of \<open>Exception\<close>, give the empty banner; the banner read never
  raises an instance of \<open>Exception\<close>. With an empty banner the probe returns what it returns
  without banner grabbing, and when the close raises nothing the port is reported open
  with the banner read.
\<close>

lemma banner_read_bounded:
  assumes "wait_for (open_connection w host port) timeout = Returns conn"
  shows "(\<exists>tr. fst (scan_port w host port timeout True) =
            [SemAcquire, Connect timeout, BannerRead 1024 (min (1 / 2) timeout)] @ tr \<and>
            (\<forall>n t. BannerRead n t \<notin> set tr)) \<and>
    (reader conn = Completes d data \<longrightarrow> d < min (1 / 2) timeout \<longrightarrow>
       banner_grab w (reader conn) (min (1 / 2) timeout) =
         Returns (strip (decode_replace w (take 1024 data)))) \<and>
    (reader conn = Completes d data \<longrightarrow> min (1 / 2) timeout \<le> d \<longrightarrow>
       banner_grab w (reader conn) (min (1 / 2) timeout) = Returns []) \<and>
    (reader conn = Pending \<longrightarrow> banner_grab w (reader conn) (min (1 / 2) timeout) = Returns []) \<and>
    (reader conn = Fails d e \<longrightarrow> is_Exception e \<longrightarrow>
       banner_grab w (reader conn) (min (1 / 2) timeout) = Returns []) \<and>
    (banner_grab w (reader conn) (min (1 / 2) timeout) = Raises e \<longrightarrow> \<not> is_Exception e) \<and>
    (banner_grab w (reader conn) (min (1 / 2) timeout) = Returns [] \<longrightarrow>
       snd (scan_port w host port timeout True) = snd (scan_port w host port timeout False)) \<and>
    (banner_grab w (reader conn) (min (1 / 2) timeout) = Returns b \<longrightarrow>
       close_exn conn = None \<longrightarrow> wait_closed_exn conn = None \<longrightarrow>
       snd (scan_port w host port timeout True) = Returns (port, True, b))"
proof (intro conjI impI)
  show "\<exists>tr. fst (scan_port w host port timeout True) =
            [SemAcquire, Connect timeout, BannerRead 1024 (min (1 / 2) timeout)] @ tr \<and>
            (\<forall>n t. BannerRead n t \<notin> set tr)"
    by (rule scan_port_banner_trace[OF assms])
next
  assume "reader conn = Completes d data" "d < min (1 / 2) timeout"
  then show "banner_grab w (reader conn) (min (1 / 2) timeout) =
         Returns (strip (decode_replace w (take 1024 data)))"
    by (rule banner_grab_cases(1))
next
  assume "reader conn = Completes d data" "min (1 / 2) timeout \<le> d"
  then show "banner_grab w (reader conn) (min (1 / 2) timeout) = Returns []"
    by (rule banner_grab_cases(2))
next
  assume "reader conn = Pending"
  then show "banner_grab w (reader conn) (min (1 / 2) timeout) = Returns []"
    by (rule banner_grab_cases(3))
next
  assume "reader conn = Fails d e" "is_Exception e"
  then show "banner_grab w (reader conn) (min (1 / 2) timeout) = Returns []"
    by (rule banner_grab_cases(4))
next
  assume "banner_grab w (reader conn) (min (1 / 2) timeout) = Raises e"
  then show "\<not> is_Exception e" by (rule banner_grab_Raises)
next
  assume "banner_grab w (reader conn) (min (1 / 2) timeout) = Returns []"
  with assms show "snd (scan_port w host port timeout True) = snd (scan_port w host port timeout False)"
    by (rule scan_port_empty_banner)
next
  assume "banner_grab w (reader conn) (min (1 / 2) timeout) = Returns b"
    "close_exn conn = None" "wait_closed_exn conn = None"
  with assms show "snd (scan_port w host port timeout True) = Returns (port, True, b)"
    by (rule scan_port_open_banner)
qed

text \<open>
  Port 22 sends its banner after 100 ms: it is read under a timeout of 1 s and missed under a
  timeout of 50 ms; port 80 never sends anything. All three probes report the port open.
\<close>

lemma banner_read_bounded_example:
  "wait_for (open_connection demo_world ''10.0.0.5'' 22) 1 =
     Returns \<lparr>reader = Completes (1 / 10) [83, 83, 72, 13, 10], close_exn = None, wait_closed_exn = None\<rparr> \<and>
   (1 / 10 :: real) < min (1 / 2) 1 \<and>
   banner_grab demo_world (Completes (1 / 10) [83, 83, 72, 13, 10]) (min (1 / 2) 1) = Returns ''SSH'' \<and>
   snd (scan_port demo_world ''10.0.0.5'' 22 1 True) = Returns (22, True, ''SSH'') \<and>
   wait_for (open_connection demo_world ''10.0.0.5'' 22) (1 / 20) =
     Returns \<lparr>reader = Completes (1 / 10) [83, 83, 72, 13, 10], close_exn = None, wait_closed_exn = None\<rparr> \<and>
   min (1 / 2) (1 / 20) \<le> (1 / 10 :: real) \<and>
   snd (scan_port demo_world ''10.0.0.5'' 22 (1 / 20) True) = Returns (22, True, []) \<and>
   wait_for (open_connection demo_world ''10.0.0.5'' 80) 1 =
     Returns \<lparr>reader = Pending, close_exn = None, wait_closed_exn = None\<rparr> \<and>
   snd (scan_port demo_world ''10.0.0.5'' 80 1 True) = Returns (80, True, [])"
proof -
  let ?c22 = "\<lparr>reader = Completes (1 / 10) [83, 83, 72, 13, 10], close_exn = None, wait_closed_exn = None\<rparr>"
  let ?c80 = "\<lparr>reader = Pending, close_exn = None, wait_closed_exn = (None :: exn option)\<rparr>"
  have a: "wait_for (open_connection demo_world ''10.0.0.5'' 22) 1 = Returns ?c22"
    by (simp add: demo_world_def wait_for_def)
  have b: "(1 / 10 :: real) < min (1 / 2) 1" by simp
  have dec: "strip (decode_replace demo_world (take 1024 [83, 83, 72, 13, 10])) = ''SSH''"
    by (simp add: demo_world_def strip_def isspace_def cp_def)
  have a': "wait_for (open_connection demo_world ''10.0.0.5'' 22) (1 / 20) = Returns ?c22"
    by (simp add: demo_world_def wait_for_def)
  have b': "min (1 / 2) (1 / 20) \<le> (1 / 10 :: real)" by simp
  have c: "wait_for (open_connection demo_world ''10.0.0.5'' 80) 1 = Returns ?c80"
    by (simp add: demo_world_def wait_for_def)
  have rd: "reader ?c22 = Completes (1 / 10) [83, 83, 72, 13, 10]" by simp
  have cl: "close_exn ?c22 = None" "wait_closed_exn ?c22 = None" by simp_all
  have rd80: "reader ?c80 = Pending" by simp
  have cl80: "close_exn ?c80 = None" "wait_closed_exn ?c80 = None" by simp_all
  note T = banner_read_bounded[OF a, of "1 / 10" "[83, 83, 72, 13, 10]" _ "''SSH''"]
  from T rd b have "banner_grab demo_world (reader ?c22) (min (1 / 2) 1) =
      Returns (strip (decode_replace demo_world (take 1024 [83, 83, 72, 13, 10])))"
    by blast
  with dec rd have 1: "banner_grab demo_world (Completes (1 / 10) [83, 83, 72, 13, 10]) (min (1 / 2) 1) = Returns ''SSH''"
    by (simp only:)
  with rd have "banner_grab demo_world (reader ?c22) (min (1 / 2) 1) = Returns ''SSH''"
    by (simp only:)
  with T cl have 2: "snd (scan_port demo_world ''10.0.0.5'' 22 1 True) = Returns (22, True, ''SSH'')"
    by blast
  note T' = banner_read_bounded[OF a', of "1 / 10" "[83, 83, 72, 13, 10]" _ "[]"]
  from T' rd b' have "banner_grab demo_world (reader ?c22) (min (1 / 2) (1 / 20)) = Returns []"
    by blast
  with T' cl have 3: "snd (scan_port demo_world ''10.0.0.5'' 22 (1 / 20) True) = Returns (22, True, [])"
    by blast
  note T80 = banner_read_bounded[OF c, of _ _ _ "[]"]
  from T80 rd80 have "banner_grab demo_world (reader ?c80) (min (1 / 2) 1) = Returns []"
    by blast
  with T80 cl80 have 4: "snd (scan_port demo_world ''10.0.0.5'' 80 1 True) = Returns (80, True, [])"
    by blast
  from a b 1 2 a' b' 3 c 4 show ?thesis by blast
qed

text \<open>
  Claim C5 fails on the code. The connect to port 443 completes, the peer resets the
  connection, and the banner read raises \<open>ConnectionResetError\<close>: \<open>banner_grab\<close> returns the
  empty banner without raising, as the claim says, but then \<open>wait_closed\<close> raises the same
  error, which only the handler of the connection attempt catches, and the port is
  reported as not open. A banner read that merely times out leaves the port open.
\<close>

theorem banner_failure_not_open:
  "wait_for (open_connection demo_world ''10.0.0.5'' 443) 1 =
     Returns \<lparr>reader = Fails (1 / 5) ConnectionResetError,
               close_exn = None, wait_closed_exn = Some ConnectionResetError\<rparr> \<and>
   banner_grab demo_world (Fails (1 / 5) ConnectionResetError) (min (1 / 2) 1) = Returns [] \<and>
   snd (scan_port demo_world ''10.0.0.5'' 443 1 True) = Returns (443, False, []) \<and>
   snd (scan_port demo_world ''10.0.0.5'' 80 1 True) = Returns (80, True, [])"
  by (simp add: probe_defs)

section \<open>The host scan scheduler\<close>

lemma scan_port_bracketed: "bracketed (fst (scan_port w host port timeout do_banner))"
  unfolding bracketed_def scan_port_def Let_def
  by (auto split: result.splits option.splits)

lemma scan_port_connect_first:
  "\<exists>body. fst (scan_port w host port timeout do_banner) = SemAcquire # Connect timeout # body @ [SemRelease] \<and> list_all is_net body"
  unfolding scan_port_def Let_def
  by (auto split: result.splits option.splits)

text \<open>The three kinds of position in a bracketed trace.\<close>

lemma bracketed_acquire:
  assumes "bracketed (p @ SemAcquire # r)"
  shows "p = []"
proof (cases p)
  case Nil
  then show ?thesis .
next
  case (Cons a p')
  from assms obtain body where b: "p @ SemAcquire # r = SemAcquire # body @ [SemRelease]" "list_all is_net body"
    by (auto simp: bracketed_def)
  with Cons have "p' @ SemAcquire # r = body @ [SemRelease]" by simp
  then have "SemAcquire \<in> set (body @ [SemRelease])" by (metis in_set_conv_decomp)
  with b(2) show ?thesis by (auto simp: list_all_iff)
qed

lemma bracketed_release:
  assumes "bracketed (p @ SemRelease # r)"
  shows "r = [] \<and> SemAcquire \<in> set p \<and> SemRelease \<notin> set p"
proof -
  from assms obtain body where b: "p @ SemRelease # r = SemAcquire # body @ [SemRelease]" "list_all is_net body"
    by (auto simp: bracketed_def)
  have nb: "SemRelease \<notin> set body" using b(2) by (auto simp: list_all_iff)
  have r: "r = []"
  proof (rule ccontr)
    assume "r \<noteq> []"
    then obtain r' x where r': "r = r' @ [x]" by (metis rev_exhaust)
    with b(1) have "(p @ SemRelease # r') @ [x] = (SemAcquire # body) @ [SemRelease]" by simp
    then have "p @ SemRelease # r' = SemAcquire # body" by (simp only: append1_eq_conv)
    then have "SemRelease \<in> set (SemAcquire # body)" by (metis in_set_conv_decomp)
    with nb show False by simp
  qed
  with b(1) have "p @ [SemRelease] = (SemAcquire # body) @ [SemRelease]" by simp
  then have "p = SemAcquire # body" by (simp only: append1_eq_conv)
  with nb r show ?thesis by simp
qed

lemma bracketed_net:
  assumes "bracketed (p @ a # r)" "is_net a"
  shows "r \<noteq> [] \<and> SemAcquire \<in> set p \<and> SemRelease \<notin> set p"
proof -
  from assms obtain body where b: "p @ a # r = SemAcquire # body @ [SemRelease]" "list_all is_net body"
    by (auto simp: bracketed_def)
  have nb: "SemRelease \<notin> set body" "SemAcquire \<notin> set body" using b(2) by (auto simp: list_all_iff)
  have r: "r \<noteq> []"
  proof
    assume "r = []"
    with b(1) have "p @ [a] = (SemAcquire # body) @ [SemRelease]" by simp
    then have "a = SemRelease" by (simp only: append1_eq_conv)
    with assms(2) show False by simp
  qed
  then obtain r' x where r': "r = r' @ [x]" by (metis rev_exhaust)
  with b(1) have "(p @ a # r') @ [x] = (SemAcquire # body) @ [SemRelease]" by simp
  then have eq: "p @ a # r' = SemAcquire # body" by (simp only: append1_eq_conv)
  have "p \<noteq> []" using eq assms(2) by (cases p) auto
  then obtain p' where p: "p = SemAcquire # p'" using eq by (cases p) auto
  with eq have "p' @ a # r' = body" by simp
  then have "set p' \<subseteq> set body" by auto
  with nb p r show ?thesis by auto
qed

lemma bracketed_nonempty: "bracketed tr \<Longrightarrow> tr \<noteq> []"
  by (auto simp: bracketed_def)

lemma bracketed_done:
  assumes "bracketed p" 
  shows "SemRelease \<in> set p"
  using assms by (auto simp: bracketed_def)

lemma collect_keeps [simp]:
  "tasks (collect host r s) = tasks s" "sem_value (collect host r s) = sem_value s"
  by (auto simp: collect_def split: result.splits prod.splits)

lemma run_task_SomeE:
  assumes "run_task host i s = Some s'"
  obtains a rest where "i < length (tasks s)" "todo (tasks s ! i) = a # rest"
    "a = SemAcquire \<Longrightarrow> 0 < sem_value s"
    "tasks s' = (tasks s)[i := (tasks s ! i)\<lparr>past := past (tasks s ! i) @ [a], todo := rest\<rparr>]"
    "sem_value s' = (if a = SemAcquire then sem_value s - 1
                     else if a = SemRelease then sem_value s + 1 else sem_value s)"
proof -
  from assms have i: "i < length (tasks s)"
    by (auto simp: run_task_def split: if_splits)
  from assms i obtain a rest where t: "todo (tasks s ! i) = a # rest"
    by (cases "todo (tasks s ! i)") (auto simp: run_task_def)
  from assms i t have en: "a = SemAcquire \<Longrightarrow> 0 < sem_value s"
    by (auto simp: run_task_def split: if_splits)
  from assms i t have "tasks s' = (tasks s)[i := (tasks s ! i)\<lparr>past := past (tasks s ! i) @ [a], todo := rest\<rparr>]"
    "sem_value s' = (if a = SemAcquire then sem_value s - 1
                     else if a = SemRelease then sem_value s + 1 else sem_value s)"
    by (auto simp: run_task_def Let_def split: if_splits)
  with i t en show ?thesis by (rule that)
qed

lemma length_filter_update:
  "i < length xs \<Longrightarrow>
   length (filter P (xs[i := y])) + (if P (xs ! i) then 1 else 0) =
   length (filter P xs) + (if P y then 1 else 0)"
proof (induction xs arbitrary: i)
  case Nil
  then show ?case by simp
next
  case (Cons x xs)
  show ?case
  proof (cases i)
    case 0
    then show ?thesis by simp
  next
    case (Suc j)
    with Cons.prems have "j < length xs" by simp
    from Cons.IH[OF this] Suc show ?thesis by simp
  qed
qed

lemma holding_step:
  assumes br: "bracketed (past t @ a # rest)"
  shows "a = SemAcquire \<Longrightarrow> \<not> holding t \<and> holding (t\<lparr>past := past t @ [a], todo := rest\<rparr>)"
    and "a = SemRelease \<Longrightarrow> holding t \<and> \<not> holding (t\<lparr>past := past t @ [a], todo := rest\<rparr>)"
    and "is_net a \<Longrightarrow> holding t \<and> holding (t\<lparr>past := past t @ [a], todo := rest\<rparr>)"
proof -
  { assume a: "a = SemAcquire"
    with br have "past t = []" using bracketed_acquire by blast
    with a show "\<not> holding t \<and> holding (t\<lparr>past := past t @ [a], todo := rest\<rparr>)"
      by (simp add: holding_def) }
  { assume a: "a = SemRelease"
    with br have "SemAcquire \<in> set (past t) \<and> SemRelease \<notin> set (past t)"
      using bracketed_release by blast
    with a show "holding t \<and> \<not> holding (t\<lparr>past := past t @ [a], todo := rest\<rparr>)"
      by (simp add: holding_def) }
  { assume a: "is_net a"
    with br have "SemAcquire \<in> set (past t) \<and> SemRelease \<notin> set (past t)"
      using bracketed_net by blast
    moreover from a have "a \<noteq> SemRelease" by auto
    ultimately show "holding t \<and> holding (t\<lparr>past := past t @ [a], todo := rest\<rparr>)"
      by (simp add: holding_def) }
qed

lemma action_cases: "a = SemAcquire \<or> a = SemRelease \<or> is_net a"
  by (cases a) auto

lemma sched_inv_step:
  assumes inv: "sched_inv C s" and st: "run_task host i s = Some s'"
  shows "sched_inv C s'"
proof -
  from st obtain a rest where i: "i < length (tasks s)" and td: "todo (tasks s ! i) = a # rest"
    and en: "a = SemAcquire \<Longrightarrow> 0 < sem_value s"
    and ts: "tasks s' = (tasks s)[i := (tasks s ! i)\<lparr>past := past (tasks s ! i) @ [a], todo := rest\<rparr>]"
    and sv: "sem_value s' = (if a = SemAcquire then sem_value s - 1
                     else if a = SemRelease then sem_value s + 1 else sem_value s)"
    by (rule run_task_SomeE) blast
  let ?t = "tasks s ! i"
  let ?t' = "?t\<lparr>past := past ?t @ [a], todo := rest\<rparr>"
  from inv i have br: "bracketed (past ?t @ todo ?t)"
    by (simp add: sched_inv_def)
  with td have br': "bracketed (past ?t @ a # rest)" by simp
  have wf: "\<forall>t\<in>set (tasks s'). bracketed (past t @ todo t)"
  proof
    fix t assume "t \<in> set (tasks s')"
    with ts have "t \<in> insert ?t' (set (tasks s))"
      using set_update_subset_insert by fastforce
    moreover have "bracketed (past ?t' @ todo ?t')" using br' by simp
    ultimately show "bracketed (past t @ todo t)"
      using inv by (auto simp: sched_inv_def)
  qed
  have cnt: "in_flight s' + (if holding ?t then 1 else 0) = in_flight s + (if holding ?t' then 1 else 0)"
    unfolding in_flight_def ts by (rule length_filter_update[OF i])
  from inv have sum: "sem_value s + in_flight s = C" by (simp add: sched_inv_def)
  have "sem_value s' + in_flight s' = C"
    using action_cases[of a]
  proof (elim disjE)
    assume a: "a = SemAcquire"
    from holding_step(1)[OF br' a] cnt have "in_flight s' = in_flight s + 1" by simp
    with a sv en sum show ?thesis by simp
  next
    assume a: "a = SemRelease"
    from holding_step(2)[OF br' a] cnt have "in_flight s' + 1 = in_flight s" by simp
    with a sv sum show ?thesis by simp
  next
    assume a: "is_net a"
    then have na: "a \<noteq> SemAcquire" "a \<noteq> SemRelease" by auto
    from holding_step(3)[OF br' a] cnt have "in_flight s' = in_flight s" by simp
    with na sv sum show ?thesis by simp
  qed
  with wf show ?thesis by (simp add: sched_inv_def)
qed

lemma sched_inv_run:
  assumes "sched_inv C s" "run host order s = Some s'"
  shows "sched_inv C s'"
  using assms
proof (induction order arbitrary: s)
  case Nil
  then show ?case by simp
next
  case (Cons i order)
  from Cons.prems(2) obtain s1 where s1: "run_task host i s = Some s1" "run host order s1 = Some s'"
    by (auto split: option.splits)
  from sched_inv_step[OF Cons.prems(1) s1(1)] s1(2) show ?case
    by (rule Cons.IH)
qed

lemma new_task_not_holding: "\<not> holding (new_task p c)"
  by (simp add: holding_def new_task_def)

lemma sched_inv_start:
  "sched_inv (nat concurrency) (scan_host_start w host ports timeout concurrency do_banner)"
proof -
  have "filter holding (map (\<lambda>p. new_task p (scan_port w host p timeout do_banner)) ports) = []"
    by (simp add: filter_empty_conv new_task_not_holding)
  then show ?thesis
    by (simp add: sched_inv_def scan_host_start_def in_flight_def new_task_def scan_port_bracketed)
qed

lemma script_step:
  assumes "run_task host i s = Some s'"
  shows "map script (tasks s') = map script (tasks s)"
proof -
  from assms obtain a rest where i: "i < length (tasks s)" and td: "todo (tasks s ! i) = a # rest"
    and ts: "tasks s' = (tasks s)[i := (tasks s ! i)\<lparr>past := past (tasks s ! i) @ [a], todo := rest\<rparr>]"
    by (rule run_task_SomeE) blast
  have "script ((tasks s ! i)\<lparr>past := past (tasks s ! i) @ [a], todo := rest\<rparr>) = script (tasks s ! i)"
    using td by (simp add: script_def)
  then have "map script (tasks s') = (map script (tasks s))[i := map script (tasks s) ! i]"
    using i ts by (simp add: map_update)
  then show ?thesis by simp
qed

lemma script_run:
  assumes "run host order s = Some s'"
  shows "map script (tasks s') = map script (tasks s)"
  using assms
proof (induction order arbitrary: s)
  case Nil
  then show ?case by simp
next
  case (Cons i order)
  from Cons.prems obtain s1 where s1: "run_task host i s = Some s1" "run host order s1 = Some s'"
    by (auto split: option.splits)
  from Cons.IH[OF s1(2)] script_step[OF s1(1)] show ?case by simp
qed

lemma script_start:
  "map script (tasks (scan_host_start w host ports timeout concurrency do_banner)) =
   map (\<lambda>p. (p, scan_port w host p timeout do_banner)) ports"
  by (simp add: scan_host_start_def script_def new_task_def comp_def)

lemma holding_iff:
  assumes "bracketed (past t @ todo t)"
  shows "holding t = (past t \<noteq> [] \<and> todo t \<noteq> [])"
proof (cases "todo t")
  case Nil
  with assms have "SemRelease \<in> set (past t)" by (simp add: bracketed_done)
  with Nil show ?thesis by (simp add: holding_def)
next
  case (Cons a rest)
  with assms have br: "bracketed (past t @ a # rest)" by simp
  show ?thesis
    using action_cases[of a]
  proof (elim disjE)
    assume "a = SemAcquire"
    with br have "past t = []" using bracketed_acquire by blast
    with Cons show ?thesis by (simp add: holding_def)
  next
    assume "a = SemRelease"
    with br have "SemAcquire \<in> set (past t) \<and> SemRelease \<notin> set (past t)"
      using bracketed_release by blast
    with Cons show ?thesis by (auto simp: holding_def)
  next
    assume "is_net a"
    with br have "SemAcquire \<in> set (past t) \<and> SemRelease \<notin> set (past t)"
      using bracketed_net by blast
    with Cons show ?thesis by (auto simp: holding_def)
  qed
qed

lemma reachable_scripts:
  assumes "run host order (scan_host_start w host ports timeout concurrency do_banner) = Some s"
    and "t \<in> set (tasks s)"
  shows "\<exists>p\<in>set ports. script t = (p, scan_port w host p timeout do_banner)"
proof -
  from assms(2) have "script t \<in> set (map script (tasks s))" by simp
  also have "map script (tasks s) = map (\<lambda>p. (p, scan_port w host p timeout do_banner)) ports"
    using script_run[OF assms(1)] script_start by simp
  finally show ?thesis by auto
qed

text \<open>
  Claim C2. In every state a host scan can reach under cap \<open>concurrency\<close>, at most
  \<open>concurrency\<close> tasks are between their acquire and their release; a task is between the two
  exactly when it has started and has not finished, and the actions of every task are the
  acquire, then the connect attempt and the other actions on the connection (banner read,
  close, wait for the close), then the release.
\<close>

theorem semaphore_bound:
  assumes "run host order (scan_host_start w host ports timeout concurrency do_banner) = Some s"
  shows "in_flight s \<le> nat concurrency \<and>
         sem_value s + in_flight s = nat concurrency \<and>
         (\<forall>t\<in>set (tasks s). holding t = (past t \<noteq> [] \<and> todo t \<noteq> [])) \<and>
         (\<forall>t\<in>set (tasks s). \<exists>body.
             past t @ todo t = SemAcquire # Connect timeout # body @ [SemRelease] \<and> list_all is_net body)"
proof -
  have inv: "sched_inv (nat concurrency) s"
    using sched_inv_run[OF sched_inv_start assms] .
  then have sum: "sem_value s + in_flight s = nat concurrency"
    and br: "\<forall>t\<in>set (tasks s). bracketed (past t @ todo t)"
    by (simp_all add: sched_inv_def)
  have shape: "\<exists>body. past t @ todo t = SemAcquire # Connect timeout # body @ [SemRelease] \<and> list_all is_net body"
    if "t \<in> set (tasks s)" for t
  proof -
    from reachable_scripts[OF assms that] obtain p
      where "script t = (p, scan_port w host p timeout do_banner)" by blast
    then have "past t @ todo t = fst (scan_port w host p timeout do_banner)"
      unfolding script_def by (metis fst_conv snd_conv)
    with scan_port_connect_first[of w host p timeout do_banner] show ?thesis by simp
  qed
  from sum have "in_flight s \<le> nat concurrency" by simp
  with sum br shape show ?thesis by (simp add: holding_iff)
qed

lemmas loop_defs = scan_host_start_def new_task_def run_task_def collect_def Let_def

text \<open>
  Three ports under a cap of two: after two tasks have connected both hold a slot, and the
  third task cannot acquire one.
\<close>

theorem semaphore_bound_witness:
  "(case run ''10.0.0.5'' [0, 1, 0, 1] (scan_host_start demo_world ''10.0.0.5'' [22, 80, 443] 1 2 False) of
      None \<Rightarrow> False
    | Some s \<Rightarrow> in_flight s = 2 \<and> in_flight s \<le> nat 2 \<and> sem_value s = 0 \<and>
                map holding (tasks s) = [True, True, False] \<and>
                map past (tasks s) = [[SemAcquire, Connect 1], [SemAcquire, Connect 1], []]) \<and>
   run ''10.0.0.5'' [0, 1, 2] (scan_host_start demo_world ''10.0.0.5'' [22, 80, 443] 1 2 False) = None"
proof -
  let ?start = "scan_host_start demo_world ''10.0.0.5'' [22, 80, 443] 1 2 False"
  have ex: "\<exists>s. run ''10.0.0.5'' [0, 1, 0, 1] ?start = Some s"
    by (simp add: loop_defs probe_defs)
  then obtain s where s: "run ''10.0.0.5'' [0, 1, 0, 1] ?start = Some s" by blast
  from semaphore_bound[OF s] have b: "in_flight s \<le> nat 2" by blast
  have v: "case run ''10.0.0.5'' [0, 1, 0, 1] ?start of
      None \<Rightarrow> False
    | Some s \<Rightarrow> in_flight s = 2 \<and> sem_value s = 0 \<and>
                map holding (tasks s) = [True, True, False] \<and>
                map past (tasks s) = [[SemAcquire, Connect 1], [SemAcquire, Connect 1], []]"
    by (simp add: loop_defs probe_defs in_flight_def holding_def)
  have n: "run ''10.0.0.5'' [0, 1, 2] ?start = None"
    by (simp add: loop_defs probe_defs)
  from s b v n show ?thesis by simp
qed

lemma run_task_results:
  assumes "run_task host i s = Some s'" "todo (tasks s ! i) = a # rest"
  shows "rest \<noteq> [] \<or> raised s \<noteq> None \<Longrightarrow> results s' = results s \<and> raised s' = raised s"
    and "rest = [] \<Longrightarrow> raised s = None \<Longrightarrow> answer (tasks s ! i) = Raises e \<Longrightarrow>
           results s' = results s \<and> raised s' = Some e"
    and "rest = [] \<Longrightarrow> raised s = None \<Longrightarrow> answer (tasks s ! i) = Returns r \<Longrightarrow>
           results s' = results s @ [r] \<and> raised s' = None"
proof -
  from assms(1) have i: "i < length (tasks s)"
    by (auto simp: run_task_def split: if_splits)
  from assms i show "rest \<noteq> [] \<or> raised s \<noteq> None \<Longrightarrow> results s' = results s \<and> raised s' = raised s"
    by (auto simp: run_task_def Let_def collect_def split: if_splits)
  from assms i show "rest = [] \<Longrightarrow> raised s = None \<Longrightarrow> answer (tasks s ! i) = Raises e \<Longrightarrow>
           results s' = results s \<and> raised s' = Some e"
    by (auto simp: run_task_def Let_def collect_def split: if_splits)
  from assms i show "rest = [] \<Longrightarrow> raised s = None \<Longrightarrow> answer (tasks s ! i) = Returns r \<Longrightarrow>
           results s' = results s @ [r] \<and> raised s' = None"
    by (auto simp: run_task_def Let_def collect_def split: if_splits prod.splits)
qed

lemma mset_filter_update:
  "i < length xs \<Longrightarrow> \<not> P (xs ! i) \<Longrightarrow>
   mset (filter P (xs[i := y])) = (if P y then add_mset y (mset (filter P xs)) else mset (filter P xs))"
proof (induction xs arbitrary: i)
  case Nil
  then show ?case by simp
next
  case (Cons x xs)
  show ?case
  proof (cases i)
    case 0
    with Cons.prems show ?thesis by simp
  next
    case (Suc j)
    with Cons.prems have "j < length xs" "\<not> P (xs ! j)" by simp_all
    from Cons.IH[OF this] Suc show ?thesis by simp
  qed
qed

lemma collected_step:
  assumes c: "collected s" and st: "run_task host i s = Some s'"
  shows "collected s'"
proof -
  from st obtain a rest where i: "i < length (tasks s)" and td: "todo (tasks s ! i) = a # rest"
    and ts: "tasks s' = (tasks s)[i := (tasks s ! i)\<lparr>past := past (tasks s ! i) @ [a], todo := rest\<rparr>]"
    by (rule run_task_SomeE) blast
  note keep = run_task_results(1)[OF st td]
  note rs = run_task_results(2)[OF st td]
  note rt = run_task_results(3)[OF st td]
  define t where "t = tasks s ! i"
  define t' where "t' = t\<lparr>past := past t @ [a], todo := rest\<rparr>"
  define fin where "fin = (\<lambda>u::task. todo u = [])"
  have ts': "tasks s' = (tasks s)[i := t']" using ts by (simp add: t'_def t_def)
  have nd: "\<not> fin (tasks s ! i)" using td by (simp add: fin_def)
  have at: "answer t' = answer t" "fin t' = (rest = [])" by (simp_all add: t'_def fin_def)
  have tin: "t \<in> set (tasks s)" using i by (simp add: t_def)
  have dm: "mset (filter fin (tasks s')) =
      (if fin t' then add_mset t' (mset (filter fin (tasks s))) else mset (filter fin (tasks s)))"
    unfolding ts' using i nd by (rule mset_filter_update[of i "tasks s" fin t'])
  have am: "mset (map answer (filter fin (tasks s'))) =
      (if rest = [] then add_mset (answer t) (mset (map answer (filter fin (tasks s))))
       else mset (map answer (filter fin (tasks s))))"
  proof (cases "rest = []")
    case True
    with dm at have "mset (filter fin (tasks s')) = add_mset t' (mset (filter fin (tasks s)))" by simp
    then have "image_mset answer (mset (filter fin (tasks s'))) =
               add_mset (answer t') (image_mset answer (mset (filter fin (tasks s))))"
      by simp
    with True at show ?thesis by simp
  next
    case False
    with dm at have "mset (filter fin (tasks s')) = mset (filter fin (tasks s))" by simp
    then have "image_mset answer (mset (filter fin (tasks s'))) =
               image_mset answer (mset (filter fin (tasks s)))"
      by simp
    with False show ?thesis by simp
  qed
  have "map answer (tasks s') = (map answer (tasks s))[i := answer t]"
    unfolding ts' using at by (simp add: map_update)
  also have "\<dots> = map answer (tasks s)"
    unfolding t_def by (metis list_update_id map_update)
  finally have "set (map answer (tasks s')) = set (map answer (tasks s))" by simp
  then have ans: "answer ` set (tasks s') = answer ` set (tasks s)" by simp
  from c have c1: "raised s = None \<Longrightarrow>
         mset (map Returns (results s)) = mset (map answer (filter fin (tasks s)))"
    and c2: "\<And>e. raised s = Some e \<Longrightarrow> Raises e \<in> answer ` set (tasks s)"
    unfolding collected_def fin_def by force+
  have g1: "mset (map Returns (results s')) = mset (map answer (filter fin (tasks s')))"
    if n': "raised s' = None"
  proof (cases "rest \<noteq> [] \<or> raised s \<noteq> None")
    case True
    from keep[OF True] have k: "results s' = results s" "raised s' = raised s" by simp_all
    with n' have n: "raised s = None" by simp
    with True have "rest \<noteq> []" by simp
    with am c1[OF n] k show ?thesis by simp
  next
    case False
    then have r: "rest = []" and n: "raised s = None" by simp_all
    show ?thesis
    proof (cases "answer t")
      case (Raises e)
      then have "answer (tasks s ! i) = Raises e" by (simp add: t_def)
      from rs[OF r n this] n' show ?thesis by simp
    next
      case (Returns x)
      then have "answer (tasks s ! i) = Returns x" by (simp add: t_def)
      from rt[OF r n this] have "results s' = results s @ [x]" by simp
      with am r c1[OF n] Returns show ?thesis by simp
    qed
  qed
  have g2: "Raises e \<in> answer ` set (tasks s')" if e: "raised s' = Some e" for e
  proof (cases "rest \<noteq> [] \<or> raised s \<noteq> None")
    case True
    from keep[OF True] e have "raised s = Some e" by simp
    from c2[OF this] ans show ?thesis by simp
  next
    case False
    then have r: "rest = []" and n: "raised s = None" by simp_all
    show ?thesis
    proof (cases "answer t")
      case (Raises e1)
      then have "answer (tasks s ! i) = Raises e1" by (simp add: t_def)
      from rs[OF r n this] e have "e1 = e" by simp
      with Raises tin have "Raises e \<in> answer ` set (tasks s)" by force
      with ans show ?thesis by simp
    next
      case (Returns x)
      then have "answer (tasks s ! i) = Returns x" by (simp add: t_def)
      from rt[OF r n this] e show ?thesis by simp
    qed
  qed
  from g1 g2 show ?thesis unfolding collected_def fin_def by force
qed

lemma collected_run:
  assumes "collected s" "run host order s = Some s'"
  shows "collected s'"
  using assms
proof (induction order arbitrary: s)
  case Nil
  then show ?case by simp
next
  case (Cons i order)
  from Cons.prems(2) obtain s1 where s1: "run_task host i s = Some s1" "run host order s1 = Some s'"
    by (auto split: option.splits)
  from collected_step[OF Cons.prems(1) s1(1)] s1(2) show ?case
    by (rule Cons.IH)
qed

lemma collected_start: "collected (scan_host_start w host ports timeout concurrency do_banner)"
proof -
  have "filter (\<lambda>t. todo t = []) (map (\<lambda>p. new_task p (scan_port w host p timeout do_banner)) ports) = []"
    using scan_port_bracketed bracketed_nonempty
    by (auto simp: filter_empty_conv new_task_def)
  then show ?thesis
    by (simp add: collected_def scan_host_start_def)
qed

lemma scan_host_ReturnsD:
  assumes "scan_host w host ports timeout concurrency do_banner order = Some (evs, Returns res)"
  shows "0 \<le> concurrency \<and>
         (\<exists>s. run host order (scan_host_start w host ports timeout concurrency do_banner) = Some s \<and>
              raised s = None \<and> all_done s \<and> res = sort_key fst (results s))"
  using assms
  by (auto simp: scan_host_def split: if_splits option.splits)

lemma all_done_filter: "all_done s \<Longrightarrow> filter (\<lambda>t. todo t = []) (tasks s) = tasks s"
  by (simp add: all_done_def list_all_iff)

lemma answers_run:
  assumes "run host order (scan_host_start w host ports timeout concurrency do_banner) = Some s"
  shows "map answer (tasks s) = map (\<lambda>p. snd (scan_port w host p timeout do_banner)) ports"
proof -
  have "map answer (tasks s) = map (\<lambda>x. snd (snd x)) (map script (tasks s))"
    by (simp add: script_def comp_def)
  also have "map script (tasks s) = map (\<lambda>p. (p, scan_port w host p timeout do_banner)) ports"
    using script_run[OF assms] script_start by simp
  finally show ?thesis by (simp add: comp_def)
qed

lemma sort_mset_cong: "mset xs = mset ys \<Longrightarrow> sort xs = sort (ys::int list)"
  by (rule properties_for_sort) simp_all

lemma map_fst_sort_key: "map fst (sort_key fst xs) = sort (map fst (xs :: (int \<times> 'a) list))"
proof -
  have "sort (map fst xs) = map fst (sort_key fst xs)"
    by (rule properties_for_sort) (simp_all add: sorted_sort_key)
  then show ?thesis by simp
qed

lemma scan_host_results:
  assumes "scan_host w host ports timeout concurrency do_banner order = Some (evs, Returns res)"
  shows "map Returns res = map (\<lambda>p. snd (scan_port w host p timeout do_banner)) (sort ports)"
    and "map fst res = sort ports"
proof -
  let ?f = "\<lambda>p. snd (scan_port w host p timeout do_banner)"
  from scan_host_ReturnsD[OF assms] obtain s
    where run: "run host order (scan_host_start w host ports timeout concurrency do_banner) = Some s"
      and n: "raised s = None" and d: "all_done s" and res: "res = sort_key fst (results s)"
    by blast
  have "collected s" using collected_run[OF collected_start run] .
  with n have "mset (map Returns (results s)) = mset (map answer (filter (\<lambda>t. todo t = []) (tasks s)))"
    by (simp add: collected_def)
  with all_done_filter[OF d] answers_run[OF run]
  have m: "mset (map Returns (results s)) = mset (map ?f ports)" by simp
  have key: "?f (fst r) = Returns r \<and> fst r \<in> set ports" if "r \<in> set (results s)" for r
  proof -
    from that have "Returns r \<in> set (map Returns (results s))" by simp
    then have "Returns r \<in> set (map ?f ports)" using m by (metis mset_eq_setD)
    then obtain p where p: "p \<in> set ports" "?f p = Returns r" by auto
    obtain q is_open banner where r: "r = (q, is_open, banner)" by (cases r)
    with p(2) scan_port_port[of w host p timeout do_banner q is_open banner] have "q = p" by simp
    with r p show ?thesis by simp
  qed
  have allret: "\<exists>r. ?f p = Returns r \<and> fst r = p" if "p \<in> set ports" for p
  proof -
    from that have "?f p \<in> set (map ?f ports)" by simp
    then have "?f p \<in> set (map Returns (results s))" using m by (metis mset_eq_setD)
    then obtain r where r: "r \<in> set (results s)" "?f p = Returns r" by auto
    obtain q is_open banner where "r = (q, is_open, banner)" by (cases r)
    with r(2) scan_port_port[of w host p timeout do_banner q is_open banner] have "fst r = p" by simp
    with r show ?thesis by blast
  qed
  define g :: "outcome result \<Rightarrow> int"
    where "g = (\<lambda>x. case x of Returns r \<Rightarrow> fst r | Raises e \<Rightarrow> 0)"
  have "image_mset g (mset (map Returns (results s))) = image_mset g (mset (map ?f ports))"
    using m by simp
  moreover have "map g (map Returns (results s)) = map fst (results s)"
    by (simp add: g_def comp_def)
  moreover have "map g (map ?f ports) = ports"
  proof -
    have "map (\<lambda>p. g (?f p)) ports = map (\<lambda>p. p) ports"
    proof (rule map_cong[OF refl])
      fix p assume "p \<in> set ports"
      from allret[OF this] show "g (?f p) = p" by (auto simp: g_def)
    qed
    then show ?thesis by (simp add: comp_def)
  qed
  ultimately have pm: "mset (map fst (results s)) = mset ports"
    by (metis mset_map)
  have "map fst res = sort (map fst (results s))"
    unfolding res by (rule map_fst_sort_key)
  also have "\<dots> = sort ports" using pm by (rule sort_mset_cong)
  finally show fst: "map fst res = sort ports" .
  have "map Returns res = map (\<lambda>r. ?f (fst r)) res"
  proof (rule map_cong[OF refl])
    fix r assume "r \<in> set res"
    then have "r \<in> set (results s)" by (simp add: res)
    from key[OF this] show "Returns r = ?f (fst r)" by simp
  qed
  also have "\<dots> = map ?f (map fst res)" by (simp add: comp_def)
  finally show "map Returns res = map ?f (sort ports)" using fst by simp
qed

lemma run_append:
  "run host (order0 @ order1) s =
     (case run host order0 s of None \<Rightarrow> None | Some s1 \<Rightarrow> run host order1 s1)"
  by (induction order0 arbitrary: s) (auto split: option.splits)

lemma run_task_enabled:
  assumes "i < length (tasks s)" "todo (tasks s ! i) = a # rest" "a = SemAcquire \<longrightarrow> 0 < sem_value s"
  shows "\<exists>s'. run_task host i s = Some s'"
  using assms by (auto simp: run_task_def Let_def)

lemma progress:
  assumes inv: "sched_inv C s" and C: "0 < C" and nd: "\<not> all_done s"
  shows "\<exists>i s'. run_task host i s = Some s'"
proof (cases "\<exists>t\<in>set (tasks s). holding t")
  case True
  then obtain t where t: "t \<in> set (tasks s)" "holding t" by blast
  then obtain i where i: "i < length (tasks s)" "tasks s ! i = t"
    by (auto simp: in_set_conv_nth)
  from inv t(1) have br: "bracketed (past t @ todo t)" by (simp add: sched_inv_def)
  from holding_iff[OF br] t(2) have ne: "past t \<noteq> []" "todo t \<noteq> []" by simp_all
  then obtain a rest where td: "todo t = a # rest" by (cases "todo t") auto
  have "a \<noteq> SemAcquire"
  proof
    assume "a = SemAcquire"
    with br td have "past t = []" using bracketed_acquire by (metis)
    with ne show False by simp
  qed
  with i td run_task_enabled[of i s a rest host] show ?thesis by auto
next
  case False
  then have "filter holding (tasks s) = []" by (simp add: filter_empty_conv)
  then have "in_flight s = 0" by (simp add: in_flight_def)
  with inv C have sv: "0 < sem_value s" by (simp add: sched_inv_def)
  from nd obtain t where t: "t \<in> set (tasks s)" "todo t \<noteq> []"
    by (auto simp: all_done_def list_all_iff)
  then obtain i where i: "i < length (tasks s)" "tasks s ! i = t"
    by (auto simp: in_set_conv_nth)
  from t(2) obtain a rest where td: "todo t = a # rest" by (cases "todo t") auto
  with i sv run_task_enabled[of i s a rest host] show ?thesis by auto
qed

lemma sum_list_map_update:
  "i < length xs \<Longrightarrow>
   sum_list (map f (xs[i := y])) + f (xs ! i) = sum_list (map f xs) + (f y :: nat)"
proof (induction xs arbitrary: i)
  case Nil
  then show ?case by simp
next
  case (Cons x xs)
  show ?case
  proof (cases i)
    case 0
    then show ?thesis by simp
  next
    case (Suc j)
    with Cons.prems have "j < length xs" by simp
    from Cons.IH[OF this] Suc show ?thesis by simp
  qed
qed

lemma remaining_step:
  assumes "run_task host i s = Some s'"
  shows "remaining s = Suc (remaining s')"
proof -
  from assms obtain a rest where i: "i < length (tasks s)" and td: "todo (tasks s ! i) = a # rest"
    and ts: "tasks s' = (tasks s)[i := (tasks s ! i)\<lparr>past := past (tasks s ! i) @ [a], todo := rest\<rparr>]"
    by (rule run_task_SomeE) blast
  from sum_list_map_update[OF i, of "\<lambda>t. length (todo t)"
      "(tasks s ! i)\<lparr>past := past (tasks s ! i) @ [a], todo := rest\<rparr>"] td ts
  show ?thesis by (simp add: remaining_def)
qed

lemma remaining_run:
  assumes "run host order s = Some s'"
  shows "remaining s = length order + remaining s'"
  using assms
proof (induction order arbitrary: s)
  case Nil
  then show ?case by simp
next
  case (Cons i order)
  from Cons.prems obtain s1 where s1: "run_task host i s = Some s1" "run host order s1 = Some s'"
    by (auto split: option.splits)
  from Cons.IH[OF s1(2)] remaining_step[OF s1(1)] show ?case by simp
qed

lemma completion:
  assumes "sched_inv C s" "0 < C"
  shows "\<exists>order s'. run host order s = Some s' \<and> all_done s'"
  using assms(1)
proof (induction "remaining s" arbitrary: s rule: less_induct)
  case less
  show ?case
  proof (cases "all_done s")
    case True
    then have "run host [] s = Some s \<and> all_done s" by simp
    then show ?thesis by blast
  next
    case False
    from progress[OF less.prems assms(2) False] obtain i s1 where st: "run_task host i s = Some s1"
      by blast
    from remaining_step[OF st] have "remaining s1 < remaining s" by simp
    moreover have "sched_inv C s1" using sched_inv_step[OF less.prems st] .
    ultimately obtain order s' where "run host order s1 = Some s'" "all_done s'"
      using less.hyps by blast
    with st have "run host (i # order) s = Some s' \<and> all_done s'" by simp
    then show ?thesis by blast
  qed
qed

lemma scan_port_trace_length: "length (fst (scan_port w host port timeout do_banner)) \<le> 6"
  unfolding scan_port_def Let_def
  by (auto split: result.splits option.splits)

lemma remaining_start:
  "remaining (scan_host_start w host ports timeout concurrency do_banner) \<le> 6 * length ports"
proof -
  have "sum_list (map (\<lambda>p. length (fst (scan_port w host p timeout do_banner))) ports) \<le> 6 * length ports"
  proof (induction ports)
    case Nil
    then show ?case by simp
  next
    case (Cons p ports)
    with scan_port_trace_length[of w host p timeout do_banner] show ?case by simp
  qed
  then show ?thesis
    by (simp add: remaining_def scan_host_start_def new_task_def comp_def)
qed

lemma never_raised:
  assumes run: "run host order (scan_host_start w host ports timeout concurrency do_banner) = Some s"
    and ok: "\<forall>p\<in>set ports. raises_only_Exceptions (open_connection w host p)"
  shows "raised s = None"
proof (cases "raised s")
  case None
  then show ?thesis .
next
  case (Some e)
  have "collected s" using collected_run[OF collected_start run] .
  with Some obtain t where "t \<in> set (tasks s)" "answer t = Raises e"
    by (auto simp: collected_def)
  then have "Raises e \<in> set (map answer (tasks s))" by force
  then obtain p where p: "p \<in> set ports" "snd (scan_port w host p timeout do_banner) = Raises e"
    unfolding answers_run[OF run] by auto
  from ok p(1) have "raises_only_Exceptions (open_connection w host p)" by blast
  from scan_port_Returns[OF this, of timeout do_banner] p(2) show ?thesis by simp
qed

lemma scan_host_completes:
  assumes C: "1 \<le> concurrency"
    and ok: "\<forall>p\<in>set ports. raises_only_Exceptions (open_connection w host p)"
    and run: "run host order0 (scan_host_start w host ports timeout concurrency do_banner) = Some s0"
  shows "length order0 \<le> 6 * length ports"
    and "\<exists>order1 evs res. scan_host w host ports timeout concurrency do_banner (order0 @ order1) = Some (evs, Returns res)"
proof -
  let ?start = "scan_host_start w host ports timeout concurrency do_banner"
  from remaining_run[OF run] remaining_start[of w host ports timeout concurrency do_banner]
  show "length order0 \<le> 6 * length ports" by simp
  from C have c0: "0 \<le> concurrency" and cp: "0 < nat concurrency" by simp_all
  have "sched_inv (nat concurrency) s0"
    using sched_inv_run[OF sched_inv_start run] .
  from completion[OF this cp] obtain order1 s' where r1: "run host order1 s0 = Some s'" and d: "all_done s'"
    by blast
  from run r1 have r: "run host (order0 @ order1) ?start = Some s'"
    by (simp add: run_append)
  from never_raised[OF r ok] have "raised s' = None" .
  with r d c0 have "scan_host w host ports timeout concurrency do_banner (order0 @ order1) =
      Some (events s', Returns (sort_key fst (results s')))"
    by (simp add: scan_host_def)
  then show "\<exists>order1 evs res. scan_host w host ports timeout concurrency do_banner (order0 @ order1) = Some (evs, Returns res)"
    by blast
qed

text \<open>
  Claim C1. Whenever \<open>scan_host\<close> returns, under any order in which the event loop resumes the
  probes, the result has one outcome for each requested port: it is as long as the port
  list, its ports are the requested ports with their multiplicities in ascending order,
  and it lists the outcome of each port's probe in that order, so it does not depend on
  the completion order. With a cap of at least 1 and probes that raise only instances of
  \<open>Exception\<close>, every run of the event loop takes at most six steps per port and can be
  continued to a run after which \<open>scan_host\<close> returns.
\<close>

theorem scan_host_sorted:
  "(scan_host w host ports timeout concurrency do_banner order = Some (evs, Returns res) \<longrightarrow>
      length res = length ports \<and> sorted (map fst res) \<and> mset (map fst res) = mset ports \<and>
      map Returns res = map (\<lambda>p. snd (scan_port w host p timeout do_banner)) (sort ports)) \<and>
   (1 \<le> concurrency \<longrightarrow> (\<forall>p\<in>set ports. raises_only_Exceptions (open_connection w host p)) \<longrightarrow>
      (\<forall>order0 s0. run host order0 (scan_host_start w host ports timeout concurrency do_banner) = Some s0 \<longrightarrow>
         length order0 \<le> 6 * length ports \<and>
         (\<exists>order1 evs res.
            scan_host w host ports timeout concurrency do_banner (order0 @ order1) = Some (evs, Returns res))))"
proof (intro conjI impI allI)
  assume r: "scan_host w host ports timeout concurrency do_banner order = Some (evs, Returns res)"
  note f = scan_host_results(2)[OF r]
  from f have "length (map fst res) = length (sort ports)" by simp
  then show "length res = length ports" by simp
  from f show "sorted (map fst res)" by simp
  from f show "mset (map fst res) = mset ports" by simp
  show "map Returns res = map (\<lambda>p. snd (scan_port w host p timeout do_banner)) (sort ports)"
    by (rule scan_host_results(1)[OF r])
next
  fix order0 s0
  assume "1 \<le> concurrency" "\<forall>p\<in>set ports. raises_only_Exceptions (open_connection w host p)"
    "run host order0 (scan_host_start w host ports timeout concurrency do_banner) = Some s0"
  then show "length order0 \<le> 6 * length ports" by (rule scan_host_completes(1))
next
  fix order0 s0
  assume "1 \<le> concurrency" "\<forall>p\<in>set ports. raises_only_Exceptions (open_connection w host p)"
    "run host order0 (scan_host_start w host ports timeout concurrency do_banner) = Some s0"
  then show "\<exists>order1 evs res.
            scan_host w host ports timeout concurrency do_banner (order0 @ order1) = Some (evs, Returns res)"
    by (rule scan_host_completes(2))
qed

text \<open>
  Three ports under a cap of two: the probes complete in the order 22, 443, 80 and the result
  is in port order.
\<close>

theorem scan_host_sorted_witness:
  "map_option snd
     (scan_host demo_world ''10.0.0.5'' [443, 22, 80] 1 2 True
        [0, 1, 0, 1, 1, 1, 1, 1, 2, 2, 0, 0, 0, 0, 2, 2, 2, 2]) =
     Some (Returns [(22, True, ''SSH''), (80, True, []), (443, False, [])]) \<and>
   length [(22, True, ''SSH''), (80, True, []), (443 :: int, False, [])] = length [443, 22, 80 :: int] \<and>
   mset (map fst [(22, True, ''SSH''), (80, True, []), (443 :: int, False, [])]) = mset [443, 22, 80] \<and>
   (1 :: int) \<le> 2 \<and>
   list_all (\<lambda>p. raises_only_Exceptions (open_connection demo_world ''10.0.0.5'' p)) [443, 22, 80] \<and>
   run ''10.0.0.5'' [0, 1, 0, 1] (scan_host_start demo_world ''10.0.0.5'' [443, 22, 80] 1 2 True) \<noteq> None \<and>
   length [0, 1, 0, 1 :: nat] \<le> 6 * length [443, 22, 80 :: int]"
proof -
  let ?res = "[(22, True, ''SSH''), (80, True, []), (443 :: int, False, [])]"
  let ?order = "[0, 1, 0, 1, 1, 1, 1, 1, 2, 2, 0, 0, 0, 0, 2, 2, 2, 2]"
  have v: "map_option snd (scan_host demo_world ''10.0.0.5'' [443, 22, 80] 1 2 True ?order) =
      Some (Returns ?res)"
    by (simp add: scan_host_def loop_defs probe_defs all_done_def)
  then obtain evs where e: "scan_host demo_world ''10.0.0.5'' [443, 22, 80] 1 2 True ?order =
      Some (evs, Returns ?res)"
    by auto
  have c: "(1 :: int) \<le> 2" by simp
  have ok: "\<forall>p\<in>set [443, 22, 80]. raises_only_Exceptions (open_connection demo_world ''10.0.0.5'' p)"
    by (simp add: demo_world_def raises_only_Exceptions_def)
  have "\<exists>s. run ''10.0.0.5'' [0, 1, 0, 1] (scan_host_start demo_world ''10.0.0.5'' [443, 22, 80] 1 2 True) = Some s"
    by (simp add: loop_defs probe_defs)
  then obtain s0 where r: "run ''10.0.0.5'' [0, 1, 0, 1] (scan_host_start demo_world ''10.0.0.5'' [443, 22, 80] 1 2 True) = Some s0"
    by blast
  note T = scan_host_sorted[of demo_world "''10.0.0.5''" "[443, 22, 80]" 1 2 True ?order evs ?res]
  from T e have 1: "length ?res = length [443, 22, 80 :: int]" "mset (map fst ?res) = mset [443, 22, 80]"
    by blast+
  from T c ok r have 2: "length [0, 1, 0, 1 :: nat] \<le> 6 * length [443, 22, 80 :: int]"
    by blast
  from r have 3: "run ''10.0.0.5'' [0, 1, 0, 1] (scan_host_start demo_world ''10.0.0.5'' [443, 22, 80] 1 2 True) \<noteq> None"
    by simp
  from ok have ok': "list_all (\<lambda>p. raises_only_Exceptions (open_connection demo_world ''10.0.0.5'' p)) [443, 22, 80]"
    by simp
  from v 1 c ok' 2 3 show ?thesis by blast
qed

section \<open>The session driver\<close>

lemma events_step:
  assumes "run_task host i s = Some s'" "list_all (scan_event host) (events s)"
  shows "list_all (scan_event host) (events s')"
  using assms
  by (auto simp: run_task_def Let_def collect_def split: if_splits list.splits result.splits)

lemma events_run:
  assumes "run host order s = Some s'" "list_all (scan_event host) (events s)"
  shows "list_all (scan_event host) (events s')"
  using assms
proof (induction order arbitrary: s)
  case Nil
  then show ?case by simp
next
  case (Cons i order)
  from Cons.prems(1) obtain s1 where s1: "run_task host i s = Some s1" "run host order s1 = Some s'"
    by (auto split: option.splits)
  from events_step[OF s1(1) Cons.prems(2)] show ?case
    by (rule Cons.IH[OF s1(2)])
qed

lemma scan_host_events:
  assumes "scan_host w host ports timeout concurrency do_banner order = Some (evs, r)"
  shows "list_all (scan_event host) evs"
proof (cases "concurrency < 0")
  case True
  with assms show ?thesis by (simp add: scan_host_def)
next
  case False
  with assms obtain s where s: "run host order (scan_host_start w host ports timeout concurrency do_banner) = Some s"
    and e: "evs = events s"
    by (auto simp: scan_host_def split: option.splits if_splits)
  have "list_all (scan_event host) (events (scan_host_start w host ports timeout concurrency do_banner))"
    by (simp add: scan_host_start_def)
  from events_run[OF s this] e show ?thesis by simp
qed

lemma host_scan_events: "scan_events host (host_scan w a ports host)"
  by (auto simp: scan_events_def host_scan_def split: option.splits intro: scan_host_events)

lemma started_append: "started (xs @ ys) = started xs @ started ys"
  by (induction xs rule: started.induct) auto

lemma error_lines_append: "error_lines (xs @ ys) = error_lines xs @ error_lines ys"
  by (induction xs rule: error_lines.induct) auto

lemma scan_event_quiet:
  "scan_event host ev \<Longrightarrow> event_host ev = host \<and> started [ev] = [] \<and> error_lines [ev] = []"
  by (induction host ev rule: scan_event.induct) simp_all

lemma quiet_events:
  assumes "list_all (scan_event host) evs"
  shows "started evs = []" "error_lines evs = []" "list_all (\<lambda>ev. event_host ev = host) evs"
  using assms
proof (induction evs)
  case Nil
  { case 1 show ?case by simp }
  { case 2 show ?case by simp }
  { case 3 show ?case by simp }
next
  case (Cons ev evs)
  { case 1
    then have "started [ev] = []" "started evs = []" using Cons.IH(1) scan_event_quiet[of host ev] by simp_all
    then show ?case using started_append[of "[ev]" evs] by simp }
  { case 2
    then have "error_lines [ev] = []" "error_lines evs = []" using Cons.IH(2) scan_event_quiet[of host ev] by simp_all
    then show ?case using error_lines_append[of "[ev]" evs] by simp }
  { case 3
    then show ?case using Cons.IH(3) scan_event_quiet[of host ev] by simp }
qed

lemma scan_targets_loop:
  assumes "list_all (\<lambda>h. scan_ends (scan h)) targets"
  shows "\<exists>al. scan_targets scan ports targets acc out =
                 Some (out @ concat (map (host_block scan ports) targets), Returns al) \<and>
              map_of al = (\<lambda>h. if h \<in> set targets \<and> returned_by (scan h) \<noteq> None
                               then returned_by (scan h) else map_of acc h)"
  using assms
proof (induction targets arbitrary: acc out)
  case Nil
  then show ?case by simp
next
  case (Cons host targets)
  from Cons.prems have e: "scan_ends (scan host)" and rest: "list_all (\<lambda>h. scan_ends (scan h)) targets"
    by simp_all
  from e obtain evs r where hs: "scan host = Some (evs, r)"
    by (auto simp: scan_ends_def split: option.splits)
  show ?case
  proof (cases r)
    case (Returns host_results)
    let ?acc = "AList.update host host_results acc"
    let ?out = "out @ [Print (Scanning host (length ports))] @ evs @
             [Print (Finished host (length (filter (\<lambda>(_, open, _). open) host_results)) (length ports))]"
    from Cons.IH[OF rest, of ?acc ?out] obtain al
      where al: "scan_targets scan ports targets ?acc ?out =
                 Some (?out @ concat (map (host_block scan ports) targets), Returns al)"
        and m: "map_of al = (\<lambda>h. if h \<in> set targets \<and> returned_by (scan h) \<noteq> None
                               then returned_by (scan h) else map_of ?acc h)"
      by blast
    have st: "scan_targets scan ports (host # targets) acc out =
          Some (out @ concat (map (host_block scan ports) (host # targets)), Returns al)"
      using hs Returns al by (simp add: host_block_def)
    have rb: "returned_by (scan host) = Some host_results"
      using hs Returns by (simp add: returned_by_def)
    have "map_of al = (\<lambda>h. if h \<in> set (host # targets) \<and> returned_by (scan h) \<noteq> None
                               then returned_by (scan h) else map_of acc h)"
      unfolding m using rb by (auto simp: update_conv' fun_eq_iff)
    with st show ?thesis by blast
  next
    case (Raises e1)
    with e hs have ex: "is_Exception e1" by (simp add: scan_ends_def)
    let ?out = "out @ [Print (Scanning host (length ports))] @ evs @ [Print (ErrorScanning host e1)]"
    from Cons.IH[OF rest, of acc ?out] obtain al
      where al: "scan_targets scan ports targets acc ?out =
                 Some (?out @ concat (map (host_block scan ports) targets), Returns al)"
        and m: "map_of al = (\<lambda>h. if h \<in> set targets \<and> returned_by (scan h) \<noteq> None
                               then returned_by (scan h) else map_of acc h)"
      by blast
    have st: "scan_targets scan ports (host # targets) acc out =
          Some (out @ concat (map (host_block scan ports) (host # targets)), Returns al)"
      using hs Raises ex al by (simp add: host_block_def)
    have rb: "returned_by (scan host) = None"
      using hs Raises by (simp add: returned_by_def)
    have "map_of al = (\<lambda>h. if h \<in> set (host # targets) \<and> returned_by (scan h) \<noteq> None
                               then returned_by (scan h) else map_of acc h)"
      unfolding m using rb by (auto simp: fun_eq_iff)
    with st show ?thesis by blast
  qed
qed

lemma host_block_facts:
  assumes "scan_ends (scan host)" "scan_events host (scan host)"
  shows "started (host_block scan ports host) = [host]"
    and "error_lines (host_block scan ports host) = map (Pair host) (raised_by (scan host))"
    and "list_all (\<lambda>ev. event_host ev = host) (host_block scan ports host)"
proof -
  from assms(1) obtain evs r where hs: "scan host = Some (evs, r)"
    by (auto simp: scan_ends_def split: option.splits)
  with assms(2) have "list_all (scan_event host) evs"
    by (simp add: scan_events_def)
  note q = quiet_events[OF this]
  show "started (host_block scan ports host) = [host]"
    using hs q(1) by (cases r) (simp_all add: host_block_def started_append)
  show "error_lines (host_block scan ports host) = map (Pair host) (raised_by (scan host))"
    using hs q(2) by (cases r) (simp_all add: host_block_def error_lines_append raised_by_def)
  show "list_all (\<lambda>ev. event_host ev = host) (host_block scan ports host)"
    using hs q(3) by (cases r) (simp_all add: host_block_def)
qed

lemma blocks_started:
  "list_all (\<lambda>h. scan_ends (scan h)) targets \<Longrightarrow> list_all (\<lambda>h. scan_events h (scan h)) targets \<Longrightarrow>
   started (concat (map (host_block scan ports) targets)) = targets"
  by (induction targets) (simp_all add: started_append host_block_facts(1))

lemma blocks_error_lines:
  "list_all (\<lambda>h. scan_ends (scan h)) targets \<Longrightarrow> list_all (\<lambda>h. scan_events h (scan h)) targets \<Longrightarrow>
   error_lines (concat (map (host_block scan ports) targets)) =
     concat (map (\<lambda>h. map (Pair h) (raised_by (scan h))) targets)"
  by (induction targets) (simp_all add: error_lines_append host_block_facts(2))

lemma blocks_own:
  "list_all (\<lambda>h. scan_ends (scan h)) targets \<Longrightarrow> list_all (\<lambda>h. scan_events h (scan h)) targets \<Longrightarrow>
   list_all (\<lambda>h. list_all (\<lambda>ev. event_host ev = h) (host_block scan ports h)) targets"
  by (induction targets) (simp_all add: host_block_facts(3))

lemma main_async_loop:
  assumes "parse_ports (arg_ports a) = Inr ports" "expand_targets (ipv6 w) (arg_target a) = Returns targets"
  shows "main_async w a = scan_targets (host_scan w a ports) ports targets [] []"
proof -
  have "host_scan w a ports =
      (\<lambda>host. scan_host w host ports (arg_timeout a) (arg_concurrency a) (arg_banner a) (loop_order w host))"
    by (simp add: fun_eq_iff host_scan_def)
  with assms show ?thesis by (simp add: main_async_def)
qed

text \<open>
  Claim C9. Whatever the scans of the hosts do, as long as each of them ends, by returning
  or by raising an instance of \<open>Exception\<close>, and so also when some return and others raise,
  the loop over the targets runs to its end. What the session does is what it does for
  the first host, then for the second, and so on: the announcement, the events of the scan,
  and the summary if the scan returned or the diagnostic with the exception if it raised.
  The results returned have an entry exactly for the hosts whose scan returned, holding
  what it returned. When the events of each scan are the actions of the probes and the lines
  for the open ports of its host, as the events of \<open>scan_host\<close> are, each part is about its host
  only, the hosts are announced in list order, and the diagnostics are those of the hosts
  whose scan raised, in list order. This loop, over the calls of \<open>scan_host\<close>, is what
  \<open>main_async\<close> runs once the port expression and the target are parsed.
\<close>

theorem driver_recovers:
  "(list_all (\<lambda>h. scan_ends (scan h)) targets \<longrightarrow>
      (\<exists>out al.
         scan_targets scan ports targets [] [] = Some (out, Returns al) \<and>
         out = concat (map (host_block scan ports) targets) \<and>
         (\<forall>h. map_of al h = (if h \<in> set targets then returned_by (scan h) else None)) \<and>
         (list_all (\<lambda>h. scan_events h (scan h)) targets \<longrightarrow>
            list_all (\<lambda>h. list_all (\<lambda>ev. event_host ev = h) (host_block scan ports h)) targets \<and>
            started out = targets \<and>
            error_lines out = concat (map (\<lambda>h. map (Pair h) (raised_by (scan h))) targets)))) \<and>
   list_all (\<lambda>h. scan_events h (host_scan w a ports h)) targets \<and>
   (parse_ports (arg_ports a) = Inr ports \<longrightarrow> expand_targets (ipv6 w) (arg_target a) = Returns targets \<longrightarrow>
      main_async w a = scan_targets (host_scan w a ports) ports targets [] [])"
proof (intro conjI impI)
  assume ends: "list_all (\<lambda>h. scan_ends (scan h)) targets"
  from scan_targets_loop[OF ends, of ports "[]" "[]"] obtain al
    where al: "scan_targets scan ports targets [] [] =
                 Some (concat (map (host_block scan ports) targets), Returns al)"
      and m: "map_of al = (\<lambda>h. if h \<in> set targets \<and> returned_by (scan h) \<noteq> None
                               then returned_by (scan h) else map_of [] h)"
    by auto
  have lookup: "\<forall>h. map_of al h = (if h \<in> set targets then returned_by (scan h) else None)"
    unfolding m by auto
  from al lookup blocks_own[OF ends] blocks_started[OF ends] blocks_error_lines[OF ends]
  show "\<exists>out al.
         scan_targets scan ports targets [] [] = Some (out, Returns al) \<and>
         out = concat (map (host_block scan ports) targets) \<and>
         (\<forall>h. map_of al h = (if h \<in> set targets then returned_by (scan h) else None)) \<and>
         (list_all (\<lambda>h. scan_events h (scan h)) targets \<longrightarrow>
            list_all (\<lambda>h. list_all (\<lambda>ev. event_host ev = h) (host_block scan ports h)) targets \<and>
            started out = targets \<and>
            error_lines out = concat (map (\<lambda>h. map (Pair h) (raised_by (scan h))) targets))"
    by blast
next
  show "list_all (\<lambda>h. scan_events h (host_scan w a ports h)) targets"
    by (simp add: list_all_iff host_scan_events)
next
  assume "parse_ports (arg_ports a) = Inr ports" "expand_targets (ipv6 w) (arg_target a) = Returns targets"
  then show "main_async w a = scan_targets (host_scan w a ports) ports targets [] []"
    by (rule main_async_loop)
qed

lemmas driver_defs = host_scan_def scan_ends_def scan_events_def demo_args_def demo_scan_def
  scan_host_def all_done_def

text \<open>
  Three hosts, of which the second fails: the first and the third get their results and their
  summary, the second gets its diagnostic and no entry, and all three are announced in list
  order. And the session over \<open>10.0.0.4/31\<close> with the ports \<open>443,22,80\<close>, in which both scans
  return.
\<close>

theorem driver_recovers_witness:
  "list_all (\<lambda>h. scan_ends (demo_scan h)) [''10.0.0.4'', ''10.0.0.5'', ''10.0.0.6''] \<and>
   list_all (\<lambda>h. scan_events h (demo_scan h)) [''10.0.0.4'', ''10.0.0.5'', ''10.0.0.6''] \<and>
   map_option snd (scan_targets demo_scan [22, 80, 443] [''10.0.0.4'', ''10.0.0.5'', ''10.0.0.6''] [] []) =
     Some (Returns [(''10.0.0.4'', [(22, True, ''SSH''), (80, True, []), (443, False, [])]),
                    (''10.0.0.6'', [(22, True, ''SSH''), (80, True, []), (443, False, [])])]) \<and>
   map_option (started \<circ> fst) (scan_targets demo_scan [22, 80, 443] [''10.0.0.4'', ''10.0.0.5'', ''10.0.0.6''] [] []) =
     Some [''10.0.0.4'', ''10.0.0.5'', ''10.0.0.6''] \<and>
   map_option (error_lines \<circ> fst) (scan_targets demo_scan [22, 80, 443] [''10.0.0.4'', ''10.0.0.5'', ''10.0.0.6''] [] []) =
     Some [(''10.0.0.5'', OSError)] \<and>
   parse_ports (arg_ports demo_args) = Inr [22, 80, 443] \<and>
   expand_targets (ipv6 demo_world) (arg_target demo_args) = Returns [''10.0.0.4'', ''10.0.0.5''] \<and>
   map_option snd (main_async demo_world demo_args) =
     Some (Returns [(''10.0.0.4'', [(22, True, ''SSH''), (80, True, []), (443, False, [])]),
                    (''10.0.0.5'', [(22, True, ''SSH''), (80, True, []), (443, False, [])])])"
proof -
  let ?ts = "[''10.0.0.4'', ''10.0.0.5'', ''10.0.0.6'']"
  let ?res = "[(22, True, ''SSH''), (80, True, []), (443 :: int, False, [])]"
  have hs: "map_option snd (host_scan demo_world demo_args [22, 80, 443] h) = Some (Returns ?res)" for h
    by (simp add: driver_defs loop_defs probe_defs)
  have ds: "demo_scan ''10.0.0.5'' = Some ([Probe ''10.0.0.5'' 443 SemAcquire], Raises OSError)"
    "demo_scan ''10.0.0.4'' = host_scan demo_world demo_args [22, 80, 443] ''10.0.0.4''"
    "demo_scan ''10.0.0.6'' = host_scan demo_world demo_args [22, 80, 443] ''10.0.0.6''"
    by (simp_all add: demo_scan_def)
  have a: "list_all (\<lambda>h. scan_ends (demo_scan h)) ?ts"
    using hs[of "''10.0.0.4''"] hs[of "''10.0.0.6''"] ds
    by (auto simp: scan_ends_def split: option.splits result.splits)
  have b: "list_all (\<lambda>h. scan_events h (demo_scan h)) ?ts"
    using host_scan_events[of "''10.0.0.4''" demo_world demo_args "[22, 80, 443]"]
      host_scan_events[of "''10.0.0.6''" demo_world demo_args "[22, 80, 443]"] ds
    by (simp add: scan_events_def)
  note T = driver_recovers[of demo_scan ?ts "[22, 80, 443]" demo_world demo_args]
  from T a b obtain out al
    where r: "scan_targets demo_scan [22, 80, 443] ?ts [] [] = Some (out, Returns al)"
      and st: "started out = ?ts"
      and el: "error_lines out = concat (map (\<lambda>h. map (Pair h) (raised_by (demo_scan h))) ?ts)"
    by blast
  have c: "map_option snd (scan_targets demo_scan [22, 80, 443] ?ts [] []) =
     Some (Returns [(''10.0.0.4'', ?res), (''10.0.0.6'', ?res)])"
    using hs[of "''10.0.0.4''"] hs[of "''10.0.0.6''"] ds
    by (auto split: option.splits result.splits)
  from r st have d: "map_option (started \<circ> fst) (scan_targets demo_scan [22, 80, 443] ?ts [] []) = Some ?ts"
    by simp
  have "concat (map (\<lambda>h. map (Pair h) (raised_by (demo_scan h))) ?ts) = [(''10.0.0.5'', OSError)]"
    using hs[of "''10.0.0.4''"] hs[of "''10.0.0.6''"] ds
    by (auto simp: raised_by_def split: option.splits result.splits)
  with r el have e: "map_option (error_lines \<circ> fst) (scan_targets demo_scan [22, 80, 443] ?ts [] []) =
      Some [(''10.0.0.5'', OSError)]"
    by simp
  have f: "parse_ports (arg_ports demo_args) = Inr [22, 80, 443]"
    unfolding demo_args_def by code_simp
  have g: "expand_targets (ipv6 demo_world) (arg_target demo_args) = Returns [''10.0.0.4'', ''10.0.0.5'']"
    unfolding demo_args_def demo_world_def by code_simp
  note M = driver_recovers[of demo_scan "[''10.0.0.4'', ''10.0.0.5'']" "[22, 80, 443]" demo_world demo_args]
  from M f g have "main_async demo_world demo_args =
      scan_targets (host_scan demo_world demo_args [22, 80, 443]) [22, 80, 443] [''10.0.0.4'', ''10.0.0.5''] [] []"
    by blast
  then have h: "map_option snd (main_async demo_world demo_args) =
     Some (Returns [(''10.0.0.4'', ?res), (''10.0.0.5'', ?res)])"
    using hs[of "''10.0.0.4''"] hs[of "''10.0.0.5''"]
    by (auto split: option.splits result.splits)
  from a b c d e f g h show ?thesis by blast
qed

text \<open>
  The port expression \<open>22,http\<close>.
\<close>

theorem parse_error_before_scanning_witness:
  "list_ex (\<lambda>tok. \<not> parseable tok) (tokens ''22,http'') \<and>
   parse_ports ''22,http'' = Inl ValueError \<and>
   main_async demo_world (demo_args\<lparr>arg_ports := ''22,http''\<rparr>) = Some ([], Raises ValueError)"
proof -
  have h: "list_ex (\<lambda>tok. \<not> parseable tok) (tokens ''22,http'')" by code_simp
  from parse_error_before_scanning[OF h, of demo_world demo_args] h show ?thesis by blast
qed

end
